theory Spec2Isabelle
  imports Complex_Main "HOL-Library.Log_Nat"
begin

section \<open>Peak search (scipy.signal.find\_peaks, as called in process\_spectrum)\<close>

text \<open>
  \<^verbatim>\<open>process_spectrum\<close> calls \<^verbatim>\<open>signal.find_peaks(modified_gradient, height=0.1, distance=20)\<close>.
  The library routine is not part of the repository; it is modelled here after its algorithm:
  all local maxima (plateaus reported at their midpoint, first and last sample never a
  maximum), then the height filter, then the distance filter that walks the peaks from the
  highest to the lowest and drops every neighbour closer than the distance.
  Edge strengths are rationals: the floating-point values of the program are finite and
  the peak search only compares them.
\<close>

function skip_plateau :: "rat list \<Rightarrow> nat \<Rightarrow> nat \<Rightarrow> nat" where
  "skip_plateau x i i_ahead =
     (if i_ahead < length x - 1 \<and> x ! i_ahead = x ! i
      then skip_plateau x i (Suc i_ahead) else i_ahead)"
  by pat_completeness auto
termination
  by (relation "measure (\<lambda>(x, i, i_ahead). length x - i_ahead)") auto

declare skip_plateau.simps [simp del]

lemma skip_plateau_ge: "i_ahead \<le> skip_plateau x i i_ahead"
proof (induction x i i_ahead rule: skip_plateau.induct)
  case (1 x i i_ahead)
  show ?case
  proof (cases "i_ahead < length x - 1 \<and> x ! i_ahead = x ! i")
    case True
    with "1" have "Suc i_ahead \<le> skip_plateau x i (Suc i_ahead)" by simp
    with True show ?thesis by (subst skip_plateau.simps) simp
  next
    case False
    then show ?thesis by (subst skip_plateau.simps) auto
  qed
qed

lemma skip_plateau_le:
  "i_ahead \<le> length x - 1 \<Longrightarrow> skip_plateau x i i_ahead \<le> length x - 1"
proof (induction x i i_ahead rule: skip_plateau.induct)
  case (1 x i i_ahead)
  show ?case
  proof (cases "i_ahead < length x - 1 \<and> x ! i_ahead = x ! i")
    case True
    with "1" have "skip_plateau x i (Suc i_ahead) \<le> length x - 1" by simp
    with True show ?thesis by (subst skip_plateau.simps) simp
  next
    case False
    with "1.prems" show ?thesis by (subst skip_plateau.simps) auto
  qed
qed

function local_maxima_loop :: "rat list \<Rightarrow> nat \<Rightarrow> nat list \<Rightarrow> nat list" where
  "local_maxima_loop x i midpoints =
     (if i < length x - 1 then
        (if x ! (i - 1) < x ! i then
           (if x ! (skip_plateau x i (i + 1)) < x ! i
            then local_maxima_loop x (skip_plateau x i (i + 1) + 1)
                   (midpoints @ [(i + (skip_plateau x i (i + 1) - 1)) div 2])
            else local_maxima_loop x (i + 1) midpoints)
         else local_maxima_loop x (i + 1) midpoints)
      else midpoints)"
  by pat_completeness auto
termination
proof (relation "measure (\<lambda>(x, i, midpoints). length x - i)")
  show "wf (measure (\<lambda>(x, i, midpoints). length x - i))" by simp
next
  fix x :: "rat list" and i :: nat and midpoints :: "nat list"
  assume "i < length x - 1"
  moreover have "i + 1 \<le> skip_plateau x i (i + 1)" by (rule skip_plateau_ge)
  ultimately show "((x, skip_plateau x i (i + 1) + 1,
                     midpoints @ [(i + (skip_plateau x i (i + 1) - 1)) div 2]),
                    x, i, midpoints) \<in> measure (\<lambda>(x, i, midpoints). length x - i)"
    by simp
qed auto

declare local_maxima_loop.simps [simp del]

definition local_maxima_1d :: "rat list \<Rightarrow> nat list" where
  "local_maxima_1d x = local_maxima_loop x 1 []"

text \<open>\<^verbatim>\<open>np.argsort\<close>: the indices that sort the keys in ascending order.\<close>

definition argsort :: "rat list \<Rightarrow> nat list" where
  "argsort keys = sort_key (\<lambda>i. keys ! i) [0..<length keys]"

fun clear_left :: "nat list \<Rightarrow> nat \<Rightarrow> nat \<Rightarrow> nat \<Rightarrow> bool list \<Rightarrow> bool list" where
  "clear_left peaks d j 0 keep = keep"
| "clear_left peaks d j (Suc k) keep =
     (if int (peaks ! j) - int (peaks ! k) < int d
      then clear_left peaks d j k (keep[k := False]) else keep)"

function clear_right :: "nat list \<Rightarrow> nat \<Rightarrow> nat \<Rightarrow> nat \<Rightarrow> bool list \<Rightarrow> bool list" where
  "clear_right peaks d j k keep =
     (if k < length peaks \<and> int (peaks ! k) - int (peaks ! j) < int d
      then clear_right peaks d j (Suc k) (keep[k := False]) else keep)"
  by pat_completeness auto
termination
  by (relation "measure (\<lambda>(peaks, d, j, k, keep). length peaks - k)") auto

declare clear_right.simps [simp del]

definition select_step :: "nat list \<Rightarrow> nat \<Rightarrow> bool list \<Rightarrow> nat \<Rightarrow> bool list" where
  "select_step peaks d keep j =
     (if \<not> keep ! j then keep
      else clear_right peaks d j (Suc j) (clear_left peaks d j j keep))"

definition select_by_peak_distance :: "nat list \<Rightarrow> rat list \<Rightarrow> nat \<Rightarrow> bool list" where
  "select_by_peak_distance peaks priority d =
     foldl (select_step peaks d) (replicate (length peaks) True) (rev (argsort priority))"

definition select_kept :: "nat list \<Rightarrow> bool list \<Rightarrow> nat list" where
  "select_kept peaks keep = map fst (filter snd (zip peaks keep))"

definition find_peaks :: "rat list \<Rightarrow> rat \<Rightarrow> nat \<Rightarrow> nat list" where
  "find_peaks x height d =
     (let peaks = filter (\<lambda>p. height \<le> x ! p) (local_maxima_1d x)
      in select_kept peaks (select_by_peak_distance peaks (map (\<lambda>p. x ! p) peaks) d))"

section \<open>Edge detection (process\_spectrum, lines 54--70)\<close>

text \<open>
  \<^verbatim>\<open>ignore_right = int(width * 0.9)\<close>: the double product truncated to an integer. For
  every width below \<open>2\<^sup>4\<^sup>8\<close> it is \<open>\<lfloor>9 * width / 10\<rfloor>\<close> (lemma \<open>ignore_right_float\<close>, proved
  once the rounding is defined).
\<close>

definition ignore_right :: "nat \<Rightarrow> nat" where
  "ignore_right width = (9 * width) div 10"

text \<open>\<^verbatim>\<open>modified_gradient[ignore_right:] = 0\<close> on a copy of the gradient magnitude.\<close>

definition modified_gradient :: "rat list \<Rightarrow> rat list" where
  "modified_gradient gradient_magnitude =
     (let width = length gradient_magnitude
      in take (ignore_right width) gradient_magnitude
         @ replicate (width - ignore_right width) 0)"

definition peaks_of :: "rat list \<Rightarrow> nat list" where
  "peaks_of gradient_magnitude = find_peaks (modified_gradient gradient_magnitude) (1 / 10) 20"

text \<open>\<^verbatim>\<open>peaks[np.argsort(modified_gradient[peaks])[-2:]]\<close>\<close>

definition strongest_peaks :: "rat list \<Rightarrow> nat list \<Rightarrow> nat list" where
  "strongest_peaks mg peaks =
     (let order = argsort (map (\<lambda>p. mg ! p) peaks)
      in map (\<lambda>i. peaks ! i) (drop (length order - 2) order))"

definition peak_edges :: "rat list \<Rightarrow> nat list \<Rightarrow> nat \<times> nat" where
  "peak_edges mg peaks =
     (let sp = strongest_peaks mg peaks in (Min (set sp), Max (set sp)))"

definition detect_edges :: "rat list \<Rightarrow> nat \<times> nat" where
  "detect_edges gradient_magnitude =
     (let width = length gradient_magnitude;
          mg = modified_gradient gradient_magnitude;
          peaks = find_peaks mg (1 / 10) 20
      in if length peaks \<ge> 2
         then (let (left_edge, right_edge) = peak_edges mg peaks
               in (left_edge, min right_edge (ignore_right width)))
         else (width div 4, min (3 * width div 4) (ignore_right width)))"

section \<open>Properties of the peak search\<close>

lemma local_maxima_loop_inv:
  "sorted_wrt (<) acc \<Longrightarrow> \<forall>p\<in>set acc. p < i \<Longrightarrow> 
   sorted_wrt (<) (local_maxima_loop x i acc) \<and>
   (\<forall>p\<in>set (local_maxima_loop x i acc). p \<in> set acc \<or> (i \<le> p \<and> p < length x - 1))"
proof (induction x i acc rule: local_maxima_loop.induct)
  case (1 x i acc)
  let ?ia = "skip_plateau x i (i + 1)"
  let ?m = "(i + (?ia - 1)) div 2"
  show ?case
  proof (cases "i < length x - 1")
    case False
    then show ?thesis using "1.prems" by (subst (1 2) local_maxima_loop.simps) simp
  next
    case inr: True
    show ?thesis
    proof (cases "x ! (i - 1) < x ! i \<and> x ! ?ia < x ! i")
      case True
      have ge: "i + 1 \<le> ?ia" by (rule skip_plateau_ge)
      have le: "?ia \<le> length x - 1" using inr by (intro skip_plateau_le) simp
      have m: "i \<le> ?m" "?m < ?ia + 1" "?m < length x - 1" using ge le by auto
      have s: "sorted_wrt (<) (acc @ [?m])" using "1.prems" m
        by (auto simp: sorted_wrt_append)
      have b: "\<forall>p\<in>set (acc @ [?m]). p < ?ia + 1" using "1.prems" m ge by auto
      have eq: "local_maxima_loop x i acc = local_maxima_loop x (?ia + 1) (acc @ [?m])"
        using inr True by (subst local_maxima_loop.simps) simp
      from "1.IH"(1)[OF inr _ _ s b] True
      have "sorted_wrt (<) (local_maxima_loop x (?ia + 1) (acc @ [?m])) \<and>
        (\<forall>p\<in>set (local_maxima_loop x (?ia + 1) (acc @ [?m])).
            p \<in> set (acc @ [?m]) \<or> (?ia + 1 \<le> p \<and> p < length x - 1))" by simp
      then show ?thesis unfolding eq using m ge by fastforce
    next
      case False
      have eq: "local_maxima_loop x i acc = local_maxima_loop x (i + 1) acc"
        using inr False by (subst local_maxima_loop.simps) auto
      have b: "\<forall>p\<in>set acc. p < i + 1" using "1.prems" by auto
      have "sorted_wrt (<) (local_maxima_loop x (i + 1) acc) \<and>
        (\<forall>p\<in>set (local_maxima_loop x (i + 1) acc).
            p \<in> set acc \<or> (i + 1 \<le> p \<and> p < length x - 1))"
      proof (cases "x ! (i - 1) < x ! i")
        case True
        with False have "\<not> x ! ?ia < x ! i" by simp
        from "1.IH"(2)[OF inr True this "1.prems"(1) b] show ?thesis .
      next
        case False
        from "1.IH"(3)[OF inr False "1.prems"(1) b] show ?thesis .
      qed
      then show ?thesis unfolding eq by fastforce
    qed
  qed
qed

lemma local_maxima_1d_sorted: "sorted_wrt (<) (local_maxima_1d x)"
  using local_maxima_loop_inv[of "[]" 1 x] by (simp add: local_maxima_1d_def)

lemma local_maxima_1d_range:
  "p \<in> set (local_maxima_1d x) \<Longrightarrow> 1 \<le> p \<and> p < length x - 1"
  using local_maxima_loop_inv[of "[]" 1 x] by (auto simp: local_maxima_1d_def)

lemma clear_left_length [simp]: "length (clear_left peaks d j k keep) = length keep"
  by (induction k arbitrary: keep) auto

lemma clear_right_length [simp]: "length (clear_right peaks d j k keep) = length keep"
proof (induction peaks d j k keep rule: clear_right.induct)
  case (1 peaks d j k keep)
  then show ?case by (subst clear_right.simps) auto
qed

lemma strict_sorted_nth_le:
  "sorted_wrt (<) (peaks :: nat list) \<Longrightarrow> a \<le> b \<Longrightarrow> b < length peaks \<Longrightarrow> peaks ! a \<le> peaks ! b"
  using sorted_wrt_nth_less[of "(<)" peaks a b] by (cases "a = b") auto

lemma strict_sorted_nth_less:
  "sorted_wrt (<) (peaks :: nat list) \<Longrightarrow> a < b \<Longrightarrow> b < length peaks \<Longrightarrow> peaks ! a < peaks ! b"
  using sorted_wrt_nth_less[of "(<)" peaks a b] by auto

lemma clear_left_nth:
  "sorted_wrt (<) peaks \<Longrightarrow> k \<le> j \<Longrightarrow> j < length peaks \<Longrightarrow> m < length keep \<Longrightarrow>
   clear_left peaks d j k keep ! m =
     (keep ! m \<and> \<not> (m < k \<and> int (peaks ! j) - int (peaks ! m) < int d))"
proof (induction k arbitrary: keep)
  case 0
  then show ?case by simp
next
  case (Suc k)
  show ?case
  proof (cases "int (peaks ! j) - int (peaks ! k) < int d")
    case True
    have "clear_left peaks d j k (keep[k := False]) ! m =
       ((keep[k := False]) ! m \<and> \<not> (m < k \<and> int (peaks ! j) - int (peaks ! m) < int d))"
      using Suc.prems by (intro Suc.IH) auto
    with True Suc.prems show ?thesis
      by (cases "m = k") (auto simp: less_Suc_eq)
  next
    case False
    have "int (peaks ! m') \<le> int (peaks ! k)" if "m' \<le> k" for m'
      using strict_sorted_nth_le[of peaks m' k] that Suc.prems by simp
    with False have "\<not> (m < Suc k \<and> int (peaks ! j) - int (peaks ! m) < int d)"
      by (metis less_Suc_eq_le diff_left_mono dual_order.strict_trans1 not_less)
    with False show ?thesis by simp
  qed
qed

lemma clear_right_nth:
  "sorted_wrt (<) peaks \<Longrightarrow> j < k \<Longrightarrow> m < length keep \<Longrightarrow> length keep = length peaks \<Longrightarrow>
   clear_right peaks d j k keep ! m =
     (keep ! m \<and> \<not> (k \<le> m \<and> int (peaks ! m) - int (peaks ! j) < int d))"
proof (induction peaks d j k keep rule: clear_right.induct)
  case (1 peaks d j k keep)
  show ?case
  proof (cases "k < length peaks \<and> int (peaks ! k) - int (peaks ! j) < int d")
    case True
    have "clear_right peaks d j (Suc k) (keep[k := False]) ! m =
       ((keep[k := False]) ! m \<and> \<not> (Suc k \<le> m \<and> int (peaks ! m) - int (peaks ! j) < int d))"
      using "1.prems" True by (intro "1.IH") auto
    moreover have "clear_right peaks d j k keep = clear_right peaks d j (Suc k) (keep[k := False])"
      using True by (subst clear_right.simps) simp
    ultimately show ?thesis using True "1.prems"
      by (cases "m = k") (auto simp: Suc_le_eq)
  next
    case False
    have eq: "clear_right peaks d j k keep = keep"
      using False by (subst clear_right.simps) auto
    have "\<not> (k \<le> m \<and> int (peaks ! m) - int (peaks ! j) < int d)"
    proof
      assume a: "k \<le> m \<and> int (peaks ! m) - int (peaks ! j) < int d"
      with "1.prems" have klt: "k < length peaks" by simp
      have "peaks ! k \<le> peaks ! m"
        using strict_sorted_nth_le[of peaks k m] a "1.prems" by simp
      with a have "int (peaks ! k) - int (peaks ! j) < int d" by linarith
      with klt False show False by simp
    qed
    with eq show ?thesis by simp
  qed
qed

definition far :: "nat list \<Rightarrow> nat \<Rightarrow> nat \<Rightarrow> nat \<Rightarrow> bool" where
  "far peaks d j m \<longleftrightarrow> int d \<le> \<bar>int (peaks ! j) - int (peaks ! m)\<bar>"

lemma select_step_length [simp]: "length (select_step peaks d keep j) = length keep"
  by (simp add: select_step_def)

lemma select_step_nth:
  assumes "sorted_wrt (<) peaks" "j < length peaks" "length keep = length peaks" "m < length peaks"
  shows "select_step peaks d keep j ! m = (keep ! m \<and> (keep ! j \<longrightarrow> m = j \<or> far peaks d j m))"
proof (cases "keep ! j")
  case False
  then show ?thesis by (simp add: select_step_def)
next
  case True
  have ord: "m < j \<Longrightarrow> peaks ! m < peaks ! j" "j < m \<Longrightarrow> peaks ! j < peaks ! m"
    using assms by (auto intro: strict_sorted_nth_less)
  have "select_step peaks d keep j ! m =
     ((keep ! m \<and> \<not> (m < j \<and> int (peaks ! j) - int (peaks ! m) < int d))
       \<and> \<not> (Suc j \<le> m \<and> int (peaks ! m) - int (peaks ! j) < int d))"
    using True assms by (simp add: select_step_def clear_right_nth clear_left_nth)
  also have "\<dots> = (keep ! m \<and> (m = j \<or> far peaks d j m))"
    using ord by (cases "m < j"; cases "j < m") (auto simp: far_def)
  finally show ?thesis using True by simp
qed

definition dist_inv :: "nat list \<Rightarrow> nat \<Rightarrow> bool list \<Rightarrow> nat set \<Rightarrow> bool" where
  "dist_inv peaks d keep P \<longleftrightarrow> length keep = length peaks \<and>
     (\<forall>j\<in>P. \<forall>m<length peaks. m \<noteq> j \<and> keep ! j \<and> keep ! m \<longrightarrow> far peaks d j m)"

lemma dist_inv_step:
  assumes "sorted_wrt (<) peaks" "j < length peaks" "dist_inv peaks d keep P" "P \<subseteq> {..<length peaks}"
  shows "dist_inv peaks d (select_step peaks d keep j) (insert j P)"
  using assms unfolding dist_inv_def
  by (auto simp: select_step_nth subset_iff)

lemma dist_inv_foldl:
  "sorted_wrt (<) peaks \<Longrightarrow> set js \<subseteq> {..<length peaks} \<Longrightarrow> P \<subseteq> {..<length peaks} \<Longrightarrow>
   dist_inv peaks d keep P \<Longrightarrow>
   dist_inv peaks d (foldl (select_step peaks d) keep js) (P \<union> set js)"
proof (induction js arbitrary: keep P)
  case Nil
  then show ?case by simp
next
  case (Cons j js)
  have "dist_inv peaks d (foldl (select_step peaks d) (select_step peaks d keep j) js) (insert j P \<union> set js)"
    using Cons.prems by (intro Cons.IH dist_inv_step) auto
  then show ?case by simp
qed

lemma set_argsort [simp]: "set (argsort keys) = {..<length keys}"
  by (auto simp: argsort_def)

lemma select_by_peak_distance_far:
  assumes "sorted_wrt (<) peaks" "length priority = length peaks"
    "j < length peaks" "m < length peaks" "m \<noteq> j"
    "select_by_peak_distance peaks priority d ! j" "select_by_peak_distance peaks priority d ! m"
  shows "far peaks d j m"
proof -
  have "dist_inv peaks d (select_by_peak_distance peaks priority d) ({} \<union> set (rev (argsort priority)))"
    unfolding select_by_peak_distance_def using assms(1,2)
    by (intro dist_inv_foldl) (auto simp: dist_inv_def)
  with assms show ?thesis by (auto simp: dist_inv_def)
qed

lemma select_by_peak_distance_length [simp]:
  "length (select_by_peak_distance peaks priority d) = length peaks"
proof -
  have "length (foldl (select_step peaks d) keep js) = length keep" for keep js
    by (induction js arbitrary: keep) auto
  then show ?thesis by (simp add: select_by_peak_distance_def)
qed

lemma set_select_kept:
  "set (select_kept peaks keep) = {peaks ! j | j. j < length peaks \<and> j < length keep \<and> keep ! j}"
  by (force simp: select_kept_def set_zip image_iff)

lemma set_select_kept_subset: "set (select_kept peaks keep) \<subseteq> set peaks"
  by (auto simp: select_kept_def dest: set_zip_leftD)

lemma sorted_wrt_zip_fst:
  "sorted_wrt (<) (xs :: nat list) \<Longrightarrow> sorted_wrt (\<lambda>a b. fst a < fst b) (zip xs ys)"
proof (induction xs arbitrary: ys)
  case Nil
  then show ?case by simp
next
  case (Cons x xs)
  show ?case
  proof (cases ys)
    case Nil
    then show ?thesis by simp
  next
    case (Cons y ys')
    with Cons.prems Cons.IH[of ys'] show ?thesis
      by (auto dest: set_zip_leftD)
  qed
qed

lemma sorted_select_kept:
  "sorted_wrt (<) peaks \<Longrightarrow> sorted_wrt (<) (select_kept peaks keep)"
  unfolding select_kept_def sorted_wrt_map
  by (intro sorted_wrt_filter sorted_wrt_zip_fst)

lemma sorted_height_filter:
  "sorted_wrt (<) (filter (\<lambda>p. height \<le> x ! p) (local_maxima_1d x))"
  by (intro sorted_wrt_filter local_maxima_1d_sorted)

lemma find_peaks_range:
  assumes "p \<in> set (find_peaks x height d)"
  shows "1 \<le> p \<and> p < length x - 1 \<and> height \<le> x ! p"
proof -
  let ?peaks = "filter (\<lambda>p. height \<le> x ! p) (local_maxima_1d x)"
  from assms have "p \<in> set (select_kept ?peaks (select_by_peak_distance ?peaks (map (\<lambda>p. x ! p) ?peaks) d))"
    by (simp add: find_peaks_def Let_def)
  then have "p \<in> set ?peaks"
    by (rule subsetD[OF set_select_kept_subset])
  then show ?thesis using local_maxima_1d_range[of p x] by auto
qed

lemma find_peaks_sorted: "sorted_wrt (<) (find_peaks x height d)"
  unfolding find_peaks_def Let_def by (intro sorted_select_kept sorted_height_filter)

lemma find_peaks_distance:
  assumes "p \<in> set (find_peaks x height d)" "q \<in> set (find_peaks x height d)" "p \<noteq> q"
  shows "int d \<le> \<bar>int p - int q\<bar>"
proof -
  let ?peaks = "filter (\<lambda>p. height \<le> x ! p) (local_maxima_1d x)"
  let ?keep = "select_by_peak_distance ?peaks (map (\<lambda>p. x ! p) ?peaks) d"
  from assms(1) obtain j where j: "j < length ?peaks" "?keep ! j" "p = ?peaks ! j"
    by (auto simp: find_peaks_def Let_def set_select_kept)
  from assms(2) obtain m where m: "m < length ?peaks" "?keep ! m" "q = ?peaks ! m"
    by (auto simp: find_peaks_def Let_def set_select_kept)
  from j m assms(3) have "m \<noteq> j" by auto
  with j m have "far ?peaks d j m"
    by (intro select_by_peak_distance_far[where priority = "map (\<lambda>p. x ! p) ?peaks"])
       (simp_all add: sorted_height_filter)
  with j m show ?thesis by (simp add: far_def)
qed

lemma drop_last_two:
  assumes "2 \<le> length xs"
  obtains a b where "drop (length xs - 2) xs = [a, b]"
proof -
  define ys where "ys = drop (length xs - 2) xs"
  have len: "length ys = 2" using assms by (simp add: ys_def)
  then obtain a ys' where a: "ys = a # ys'" by (cases ys) auto
  with len obtain b where "ys' = [b]" by (cases ys') auto
  with a show ?thesis using that by (simp add: ys_def)
qed

lemma argsort_props: "length (argsort keys) = length keys" "distinct (argsort keys)"
  by (simp_all add: argsort_def)

lemma peak_edges_props:
  assumes "sorted_wrt (<) peaks" "2 \<le> length peaks"
  shows "fst (peak_edges mg peaks) \<in> set peaks \<and> snd (peak_edges mg peaks) \<in> set peaks \<and>
         fst (peak_edges mg peaks) < snd (peak_edges mg peaks)"
proof -
  let ?order = "argsort (map (\<lambda>p. mg ! p) peaks)"
  have len: "length ?order = length peaks" and dist: "distinct ?order"
    by (simp_all add: argsort_props)
  from assms(2) len obtain a b where ab: "drop (length ?order - 2) ?order = [a, b]"
    by (metis drop_last_two)
  have "set (drop (length ?order - 2) ?order) \<subseteq> set ?order" by (rule set_drop_subset)
  with ab have lt: "a < length peaks" "b < length peaks" by auto
  have "distinct (drop (length ?order - 2) ?order)" using dist by (rule distinct_drop)
  with ab have "a \<noteq> b" by simp
  with lt assms(1) have ne: "peaks ! a \<noteq> peaks ! b"
    using strict_sorted_nth_less[of peaks a b] strict_sorted_nth_less[of peaks b a]
    by (cases "a < b") auto
  have sp: "strongest_peaks mg peaks = [peaks ! a, peaks ! b]"
    using ab by (simp add: strongest_peaks_def Let_def)
  have "peak_edges mg peaks = (min (peaks ! a) (peaks ! b), max (peaks ! a) (peaks ! b))"
    by (simp add: peak_edges_def sp Let_def)
  with ne lt show ?thesis by (auto simp: min_def max_def)
qed

lemma modified_gradient_length [simp]:
  "length (modified_gradient gm) = length gm"
  by (simp add: modified_gradient_def Let_def ignore_right_def)

lemma modified_gradient_zero:
  "ignore_right (length gm) \<le> p \<Longrightarrow> p < length gm \<Longrightarrow> modified_gradient gm ! p = 0"
  by (simp add: modified_gradient_def Let_def nth_append ignore_right_def)

lemma peaks_below_ignore_right:
  assumes "p \<in> set (peaks_of gm)"
  shows "1 \<le> p \<and> p < ignore_right (length gm)"
proof -
  from assms have r: "1 \<le> p" "p < length gm - 1" "1 / 10 \<le> modified_gradient gm ! p"
    using find_peaks_range[of p "modified_gradient gm" "1 / 10" 20]
    by (simp_all add: peaks_of_def)
  have "p < ignore_right (length gm)"
  proof (rule ccontr)
    assume "\<not> p < ignore_right (length gm)"
    with r(2) have "modified_gradient gm ! p = 0" by (intro modified_gradient_zero) auto
    with r(3) show False by simp
  qed
  with r show ?thesis by simp
qed

lemma detect_edges_peak_branch:
  assumes "2 \<le> length (peaks_of gm)"
  shows "fst (peak_edges (modified_gradient gm) (peaks_of gm)) \<in> set (peaks_of gm)"
    and "snd (peak_edges (modified_gradient gm) (peaks_of gm)) \<in> set (peaks_of gm)"
    and "fst (peak_edges (modified_gradient gm) (peaks_of gm))
          < snd (peak_edges (modified_gradient gm) (peaks_of gm))"
    and "snd (peak_edges (modified_gradient gm) (peaks_of gm)) < ignore_right (length gm)"
    and "detect_edges gm = peak_edges (modified_gradient gm) (peaks_of gm)"
proof -
  let ?e = "peak_edges (modified_gradient gm) (peaks_of gm)"
  have sorted: "sorted_wrt (<) (peaks_of gm)"
    by (simp add: peaks_of_def find_peaks_sorted)
  from peak_edges_props[OF sorted assms, of "modified_gradient gm"]
  show 1: "fst ?e \<in> set (peaks_of gm)" and 2: "snd ?e \<in> set (peaks_of gm)"
    and 3: "fst ?e < snd ?e" by simp_all
  from peaks_below_ignore_right[OF 2] show 4: "snd ?e < ignore_right (length gm)" by simp
  have "detect_edges gm = (fst ?e, min (snd ?e) (ignore_right (length gm)))"
    using assms by (simp add: detect_edges_def Let_def peaks_of_def case_prod_beta)
  with 4 show "detect_edges gm = ?e" by (simp add: min_def)
qed


section \<open>Claims about the peak branch of the edge detector\<close>

text \<open>A 60-column edge-strength profile with two isolated peaks, at columns 5 and 40.\<close>

definition two_peak_profile :: "rat list" where
  "two_peak_profile = replicate 5 0 @ [1] @ replicate 34 0 @ [1 / 2] @ replicate 19 0"

text \<open>
  Claim C7. When at least two peaks are found, both selected edges are peak positions of
  the modified edge-strength sequence, whose columns at or beyond \<open>\<lfloor>0.9 * width\<rfloor>\<close> are
  zero; both edges lie strictly below \<open>\<lfloor>0.9 * width\<rfloor>\<close>, and the clamp
  \<^verbatim>\<open>min(right_edge, ignore_right)\<close> leaves the right edge unchanged, so the detector returns
  the two peak positions themselves.
\<close>

theorem C7_edges_are_peaks_below_ignore_right:
  assumes "2 \<le> length (peaks_of gm)"
  shows "peaks_of gm = find_peaks (modified_gradient gm) (1 / 10) 20
       \<and> (\<forall>p. ignore_right (length gm) \<le> p \<and> p < length gm \<longrightarrow> modified_gradient gm ! p = 0)
       \<and> fst (peak_edges (modified_gradient gm) (peaks_of gm)) \<in> set (peaks_of gm)
       \<and> snd (peak_edges (modified_gradient gm) (peaks_of gm)) \<in> set (peaks_of gm)
       \<and> fst (peak_edges (modified_gradient gm) (peaks_of gm)) < ignore_right (length gm)
       \<and> snd (peak_edges (modified_gradient gm) (peaks_of gm)) < ignore_right (length gm)
       \<and> min (snd (peak_edges (modified_gradient gm) (peaks_of gm))) (ignore_right (length gm))
           = snd (peak_edges (modified_gradient gm) (peaks_of gm))
       \<and> detect_edges gm = peak_edges (modified_gradient gm) (peaks_of gm)"
proof -
  note b = detect_edges_peak_branch[OF assms]
  have "fst (peak_edges (modified_gradient gm) (peaks_of gm)) < ignore_right (length gm)"
    using b(3) b(4) by simp
  with b show ?thesis
    by (simp add: peaks_of_def modified_gradient_zero min_def)
qed

theorem C7_witness:
  "2 \<le> length (peaks_of two_peak_profile)
   \<and> ignore_right (length two_peak_profile) = 54
   \<and> detect_edges two_peak_profile = (5, 40)
   \<and> peak_edges (modified_gradient two_peak_profile) (peaks_of two_peak_profile) = (5, 40)
   \<and> min (snd (peak_edges (modified_gradient two_peak_profile) (peaks_of two_peak_profile)))
        (ignore_right (length two_peak_profile)) = 40"
proof -
  have h: "2 \<le> length (peaks_of two_peak_profile)" by code_simp
  have e: "detect_edges two_peak_profile = (5, 40)" by code_simp
  have i: "ignore_right (length two_peak_profile) = 54" by code_simp
  note c = C7_edges_are_peaks_below_ignore_right[OF h]
  from c have pe: "detect_edges two_peak_profile
      = peak_edges (modified_gradient two_peak_profile) (peaks_of two_peak_profile)"
    by blast
  from c have m: "min (snd (peak_edges (modified_gradient two_peak_profile) (peaks_of two_peak_profile)))
        (ignore_right (length two_peak_profile))
      = snd (peak_edges (modified_gradient two_peak_profile) (peaks_of two_peak_profile))"
    by blast
  from pe e have p: "peak_edges (modified_gradient two_peak_profile) (peaks_of two_peak_profile) = (5, 40)"
    by simp
  from m p have "min (snd (peak_edges (modified_gradient two_peak_profile) (peaks_of two_peak_profile)))
        (ignore_right (length two_peak_profile)) = 40" by simp
  with h i e p show ?thesis by blast
qed

text \<open>
  Claim C10. Whenever at least two peaks are found, the returned left and right edges are
  two distinct detected peak positions; any two distinct detected peaks are at least 20
  columns apart, so the spectrum width \<open>right_edge - left_edge\<close> is at least 20.
\<close>

theorem C10_peak_branch_width_at_least_20:
  assumes "2 \<le> length (peaks_of gm)" and "detect_edges gm = (left_edge, right_edge)"
  shows "left_edge \<in> set (peaks_of gm) \<and> right_edge \<in> set (peaks_of gm)
       \<and> left_edge \<noteq> right_edge
       \<and> (\<forall>p\<in>set (peaks_of gm). \<forall>q\<in>set (peaks_of gm). p \<noteq> q \<longrightarrow> 20 \<le> \<bar>int p - int q\<bar>)
       \<and> left_edge + 20 \<le> right_edge"
proof -
  note b = detect_edges_peak_branch[OF assms(1)]
  from b(5) assms(2) have e: "peak_edges (modified_gradient gm) (peaks_of gm) = (left_edge, right_edge)"
    by simp
  with b have l: "left_edge \<in> set (peaks_of gm)" and r: "right_edge \<in> set (peaks_of gm)"
    and lt: "left_edge < right_edge" by simp_all
  have far: "20 \<le> \<bar>int p - int q\<bar>"
    if "p \<in> set (peaks_of gm)" "q \<in> set (peaks_of gm)" "p \<noteq> q" for p q
    using find_peaks_distance[of p "modified_gradient gm" "1 / 10" 20 q] that
    by (simp add: peaks_of_def)
  from far[OF l r] lt have "left_edge + 20 \<le> right_edge" by simp
  with l r lt far show ?thesis by auto
qed

theorem C10_witness:
  "2 \<le> length (peaks_of two_peak_profile) \<and> detect_edges two_peak_profile = (5, 40)
   \<and> (5::nat) \<in> set (peaks_of two_peak_profile) \<and> (40::nat) \<in> set (peaks_of two_peak_profile)
   \<and> (5::nat) + 20 \<le> 40"
proof -
  have h: "2 \<le> length (peaks_of two_peak_profile)" by code_simp
  have e: "detect_edges two_peak_profile = (5, 40)" by code_simp
  from C10_peak_branch_width_at_least_20[OF h e] h e show ?thesis by simp
qed

section \<open>Sector boundaries (process\_spectrum, lines 78--79)\<close>

text \<open>
  \<^verbatim>\<open>sector_width = (right_edge - left_edge) / num_sectors\<close> and
  \<^verbatim>\<open>int(left_edge + i*sector_width)\<close> are computed in IEEE binary64. The three
  operations (division, product, sum) are each the exact result rounded to the nearest
  double, ties to even; \<open>fl\<close> is that rounding on the rationals (53-bit significand; the
  values here are far from overflow and underflow). \<^verbatim>\<open>int()\<close> truncates towards zero.
\<close>

text \<open>\<^verbatim>\<open>np.round\<close> and the rounding of a significand: to the nearest integer, ties to even.\<close>

definition round_half_even :: "rat \<Rightarrow> int" where
  "round_half_even x =
     (let f = \<lfloor>x\<rfloor>; d = x - of_int f
      in if d < 1 / 2 then f else if 1 / 2 < d then f + 1 else if even f then f else f + 1)"

text \<open>The binary exponent \<open>\<lfloor>log\<^sub>2 x\<rfloor>\<close> of a positive rational.\<close>

definition binade :: "rat \<Rightarrow> int" where
  "binade x = (if 1 \<le> x then int (floorlog 2 (nat \<lfloor>x\<rfloor>)) - 1
               else - int (floorlog 2 (nat (\<lceil>1 / x\<rceil> - 1))))"

definition fl :: "rat \<Rightarrow> rat" where
  "fl x = (if x = 0 then 0
           else (let e = binade \<bar>x\<bar>;
                     m = round_half_even (\<bar>x\<bar> * 2 powi (52 - e))
                 in sgn x * of_int m * 2 powi (e - 52)))"

definition trunc :: "rat \<Rightarrow> int" where
  "trunc x = (if 0 \<le> x then \<lfloor>x\<rfloor> else \<lceil>x\<rceil>)"

definition sector_width :: "nat \<Rightarrow> nat \<Rightarrow> nat \<Rightarrow> rat" where
  "sector_width left_edge right_edge num_sectors =
     fl ((of_nat right_edge - of_nat left_edge) / of_nat num_sectors)"

definition boundary :: "nat \<Rightarrow> rat \<Rightarrow> nat \<Rightarrow> int" where
  "boundary left_edge sw i = trunc (fl (of_nat left_edge + fl (of_nat i * sw)))"

definition sector_boundaries :: "nat \<Rightarrow> nat \<Rightarrow> nat \<Rightarrow> int list" where
  "sector_boundaries left_edge right_edge num_sectors =
     map (boundary left_edge (sector_width left_edge right_edge num_sectors))
       [0..<num_sectors + 1]"

lemma floor_rat_numeral_divide:
  "\<lfloor>numeral a / numeral b :: rat\<rfloor> = numeral a div numeral b"
  by (metis floor_divide_of_int_eq of_int_numeral)

lemma ceiling_rat_numeral_divide:
  "\<lceil>numeral a / numeral b :: rat\<rceil> = - (- numeral a div numeral b)"
  by (metis ceiling_divide_eq_div of_int_numeral)

lemmas fl_eval = fl_def binade_def compute_floorlog round_half_even_def Let_def trunc_def
  floor_rat_numeral_divide ceiling_rat_numeral_divide sector_width_def boundary_def

subsection \<open>Properties of the rounding\<close>

lemma binade_bounds:
  assumes "0 < x"
  shows "2 powi binade x \<le> x \<and> x < 2 powi (binade x + 1)"
proof (cases "1 \<le> x")
  case True
  define n where "n = nat \<lfloor>x\<rfloor>"
  have fl0: "1 \<le> \<lfloor>x\<rfloor>" using True by simp
  have n: "0 < n" using fl0 by (simp add: n_def)
  have nx: "(of_nat n :: rat) = of_int \<lfloor>x\<rfloor>" using fl0 by (simp add: n_def)
  have lo: "of_nat n \<le> x" and hi: "x < of_nat n + 1" unfolding nx by linarith+
  define L where "L = floorlog 2 n"
  from floorlog_bounds[of n 2] n have b: "2 ^ (L - 1) \<le> n" "n < 2 ^ L" by (auto simp: L_def)
  have Lpos: "0 < L" using n by (simp add: L_def floorlog_def)
  have e: "binade x = int (L - 1)" using True Lpos by (simp add: binade_def n_def L_def)
  have e1: "binade x + 1 = int L" using e Lpos by simp
  have a: "(2::rat) ^ (L - 1) \<le> of_nat n"
    using of_nat_mono[OF b(1), where 'a = rat] by simp
  have 1: "(2::rat) ^ (L - 1) \<le> x" by (rule order_trans[OF a lo])
  have "n + 1 \<le> 2 ^ L" using b(2) by simp
  from of_nat_mono[OF this, where 'a = rat] have c: "(of_nat n :: rat) + 1 \<le> 2 ^ L" by simp
  have 2: "x < (2::rat) ^ L" by (rule less_le_trans[OF hi c])
  show ?thesis unfolding e1 unfolding e using 1 2 by simp
next
  case False
  define y where "y = 1 / x"
  have y1: "1 < y" using False assms by (simp add: y_def)
  have xy: "x = 1 / y" by (simp add: y_def)
  define n where "n = nat (\<lceil>y\<rceil> - 1)"
  have c2: "2 \<le> \<lceil>y\<rceil>" using y1 by linarith
  have n: "0 < n" using c2 by (simp add: n_def)
  have nx: "(of_nat n :: rat) = of_int \<lceil>y\<rceil> - 1" using c2 by (simp add: n_def)
  have lo: "of_nat n < y" and hi: "y \<le> of_nat n + 1" unfolding nx by linarith+
  define L where "L = floorlog 2 n"
  from floorlog_bounds[of n 2] n have b: "2 ^ (L - 1) \<le> n" "n < 2 ^ L" by (auto simp: L_def)
  have Lpos: "0 < L" using n by (simp add: L_def floorlog_def)
  have e: "binade x = - int L" using False by (simp add: binade_def n_def L_def y_def)
  have e1: "binade x + 1 = - int (L - 1)" using e Lpos by simp
  have a: "(2::rat) ^ (L - 1) \<le> of_nat n"
    using of_nat_mono[OF b(1), where 'a = rat] by simp
  have 1: "(2::rat) ^ (L - 1) < y" by (rule le_less_trans[OF a lo])
  have "n + 1 \<le> 2 ^ L" using b(2) by simp
  from of_nat_mono[OF this, where 'a = rat] have c: "(of_nat n :: rat) + 1 \<le> 2 ^ L" by simp
  have 2: "y \<le> (2::rat) ^ L" by (rule order_trans[OF hi c])
  have 3: "1 / (2::rat) ^ L \<le> 1 / y" using 2 y1 by (intro divide_left_mono) auto
  have 4: "1 / y < 1 / (2::rat) ^ (L - 1)" using 1 y1 by (intro divide_strict_left_mono) auto
  show ?thesis unfolding e1 unfolding e using 3 4
    by (simp add: power_int_minus xy inverse_eq_divide)
qed

lemma binade_unique:
  assumes "0 < x" "2 powi e \<le> x" "x < 2 powi (e + 1)"
  shows "binade x = e"
proof (rule antisym)
  show "binade x \<le> e"
  proof (rule ccontr)
    assume "\<not> binade x \<le> e"
    then have "e + 1 \<le> binade x" by simp
    then have "(2::rat) powi (e + 1) \<le> 2 powi binade x" by (intro power_int_increasing) auto
    with binade_bounds[OF assms(1)] assms(3) show False by linarith
  qed
  show "e \<le> binade x"
  proof (rule ccontr)
    assume "\<not> e \<le> binade x"
    then have "binade x + 1 \<le> e" by simp
    then have "(2::rat) powi (binade x + 1) \<le> 2 powi e" by (intro power_int_increasing) auto
    with binade_bounds[OF assms(1)] assms(2) show False by linarith
  qed
qed

lemma round_half_even_of_int [simp]: "round_half_even (of_int z) = z"
  by (simp add: round_half_even_def Let_def)

lemma round_half_even_near:
  "\<bar>of_int (round_half_even x) - x\<bar> \<le> 1 / 2"
proof -
  have "of_int \<lfloor>x\<rfloor> \<le> x" "x < of_int \<lfloor>x\<rfloor> + 1" by linarith+
  then show ?thesis by (auto simp: round_half_even_def Let_def)
qed

lemma round_half_even_mono:
  assumes "a \<le> b"
  shows "round_half_even a \<le> round_half_even b"
proof (rule ccontr)
  assume "\<not> round_half_even a \<le> round_half_even b"
  then have "round_half_even b + 1 \<le> round_half_even a" by simp
  then have lt: "(of_int (round_half_even b) :: rat) + 1 \<le> of_int (round_half_even a)"
    by (metis of_int_1 of_int_add of_int_le_iff)
  from round_half_even_near[of a] round_half_even_near[of b] lt assms
  have "a = b" by linarith
  with \<open>\<not> round_half_even a \<le> round_half_even b\<close> show False by simp
qed

lemma fl_zero [simp]: "fl 0 = 0"
  by (simp add: fl_def)

lemma fl_pos:
  "0 < x \<Longrightarrow> fl x = of_int (round_half_even (x * 2 powi (52 - binade x))) * 2 powi (binade x - 52)"
  by (simp add: fl_def Let_def)

lemma two_powi_split: "(2::rat) powi (a + b) = 2 powi a * 2 powi b"
  by (rule power_int_add) simp

lemma fl_lower:
  assumes "0 < x"
  shows "2 powi binade x \<le> fl x"
proof -
  let ?e = "binade x"
  have "(2::rat) powi ?e * 2 powi (52 - ?e) \<le> x * 2 powi (52 - ?e)"
    using binade_bounds[OF assms] by (intro mult_right_mono) auto
  moreover have "(2::rat) powi ?e * 2 powi (52 - ?e) = of_int (2 ^ 52)"
    by (simp flip: two_powi_split)
  ultimately have "round_half_even (of_int (2 ^ 52)) \<le> round_half_even (x * 2 powi (52 - ?e))"
    by (intro round_half_even_mono) simp
  then have "(of_int (2 ^ 52) :: rat) \<le> of_int (round_half_even (x * 2 powi (52 - ?e)))"
    unfolding round_half_even_of_int by (simp only: of_int_le_iff)
  then have "of_int (2 ^ 52) * (2::rat) powi (?e - 52) \<le> fl x"
    unfolding fl_pos[OF assms] by (intro mult_right_mono) auto
  moreover have "of_int (2 ^ 52) * (2::rat) powi (?e - 52) = 2 powi ?e"
    using two_powi_split[of 52 "?e - 52"] by simp
  ultimately show ?thesis by simp
qed

lemma fl_upper:
  assumes "0 < x"
  shows "fl x \<le> 2 powi (binade x + 1)"
proof -
  let ?e = "binade x"
  have "x * 2 powi (52 - ?e) \<le> (2::rat) powi (?e + 1) * 2 powi (52 - ?e)"
    using binade_bounds[OF assms] by (intro mult_right_mono) auto
  moreover have "(2::rat) powi (?e + 1) * 2 powi (52 - ?e) = of_int (2 ^ 53)"
    by (simp flip: two_powi_split)
  ultimately have "round_half_even (x * 2 powi (52 - ?e)) \<le> round_half_even (of_int (2 ^ 53))"
    by (intro round_half_even_mono) simp
  then have "(of_int (round_half_even (x * 2 powi (52 - ?e))) :: rat) \<le> of_int (2 ^ 53)"
    unfolding round_half_even_of_int by (simp only: of_int_le_iff)
  then have "fl x \<le> of_int (2 ^ 53) * (2::rat) powi (?e - 52)"
    unfolding fl_pos[OF assms] by (intro mult_right_mono) auto
  moreover have "of_int (2 ^ 53) * (2::rat) powi (?e - 52) = 2 powi (?e + 1)"
    using two_powi_split[of 53 "?e - 52"] by (simp add: add.commute)
  ultimately show ?thesis by simp
qed

lemma fl_nonneg: "0 \<le> x \<Longrightarrow> 0 \<le> fl x"
proof (cases "x = 0")
  case False
  assume "0 \<le> x"
  with False have pos: "0 < x" by simp
  have "(0::rat) < 2 powi binade x" by simp
  with fl_lower[OF pos] show ?thesis by linarith
qed simp

lemma fl_mono:
  assumes "0 \<le> x" "x \<le> y"
  shows "fl x \<le> fl y"
proof (cases "x = 0")
  case True
  with assms show ?thesis by (simp add: fl_nonneg)
next
  case False
  with assms have px: "0 < x" and py: "0 < y" by simp_all
  have le: "binade x \<le> binade y"
  proof (rule ccontr)
    assume "\<not> binade x \<le> binade y"
    then have "binade y + 1 \<le> binade x" by simp
    then have "(2::rat) powi (binade y + 1) \<le> 2 powi binade x"
      by (intro power_int_increasing) auto
    with binade_bounds[OF px] binade_bounds[OF py] assms(2) show False by linarith
  qed
  show ?thesis
  proof (cases "binade x = binade y")
    case True
    have "x * 2 powi (52 - binade y) \<le> y * 2 powi (52 - binade y)"
      using assms(2) by (intro mult_right_mono) auto
    then have "round_half_even (x * 2 powi (52 - binade y))
        \<le> round_half_even (y * 2 powi (52 - binade y))"
      by (rule round_half_even_mono)
    then have "(of_int (round_half_even (x * 2 powi (52 - binade y))) :: rat)
        \<le> of_int (round_half_even (y * 2 powi (52 - binade y)))"
      by (simp only: of_int_le_iff)
    then show ?thesis unfolding fl_pos[OF px] fl_pos[OF py] True
      by (intro mult_right_mono) auto
  next
    case False
    with le have "binade x + 1 \<le> binade y" by simp
    then have "(2::rat) powi (binade x + 1) \<le> 2 powi binade y"
      by (intro power_int_increasing) auto
    with fl_upper[OF px] fl_lower[OF py] show ?thesis by linarith
  qed
qed

lemma fl_dyadic:
  assumes "m < 2 ^ 53"
  shows "fl (of_nat m / 2 ^ k) = of_nat m / 2 ^ k"
proof (cases "m = 0")
  case True
  then show ?thesis by simp
next
  case False
  let ?x = "of_nat m / 2 ^ k :: rat"
  have pos: "0 < ?x" using False by simp
  have xk: "?x = of_nat m * 2 powi (- int k)"
    by (simp add: power_int_minus field_simps)
  let ?e = "binade ?x"
  have "(of_nat m :: rat) < of_nat (2 ^ 53)" using assms by (simp only: of_nat_less_iff)
  then have "of_nat m * (2::rat) powi (- int k) < of_nat (2 ^ 53) * 2 powi (- int k)"
    by (intro mult_strict_right_mono) auto
  also have "of_nat (2 ^ 53) * (2::rat) powi (- int k) = 2 powi (53 - int k)"
    using two_powi_split[of 53 "- int k"] by simp
  finally have up: "?x < 2 powi (53 - int k)" unfolding xk .
  have ek: "?e \<le> 52 - int k"
  proof (rule ccontr)
    assume "\<not> ?e \<le> 52 - int k"
    then have "53 - int k \<le> ?e" by simp
    then have "(2::rat) powi (53 - int k) \<le> 2 powi ?e" by (intro power_int_increasing) auto
    with binade_bounds[OF pos] up show False by linarith
  qed
  define j where "j = nat (52 - ?e - int k)"
  have j: "int j = 52 - ?e - int k" using ek by (simp add: j_def)
  have "?x * 2 powi (52 - ?e) = of_nat m * ((2::rat) powi (- int k) * 2 powi (52 - ?e))"
    unfolding xk by simp
  also have "(2::rat) powi (- int k) * 2 powi (52 - ?e) = 2 powi int j"
    unfolding j by (simp flip: two_powi_split)
  also have "of_nat m * (2::rat) powi int j = of_int (int m * 2 ^ j)" by simp
  finally have s: "?x * 2 powi (52 - ?e) = of_int (int m * 2 ^ j)" .
  have "fl ?x = of_int (int m * 2 ^ j) * 2 powi (?e - 52)"
    unfolding fl_pos[OF pos] s round_half_even_of_int ..
  also have "\<dots> = of_nat m * ((2::rat) powi int j * 2 powi (?e - 52))" by simp
  also have "(2::rat) powi int j * 2 powi (?e - 52) = 2 powi (- int k)"
    unfolding j by (simp flip: two_powi_split)
  finally show ?thesis unfolding xk .
qed

lemma fl_of_nat: "m < 2 ^ 53 \<Longrightarrow> fl (of_nat m) = of_nat m"
  using fl_dyadic[of m 0] by simp

text \<open>
  The literal \<^verbatim>\<open>0.9\<close> is the double \<open>8106479329266893 / 2\<^sup>5\<^sup>3\<close>, slightly above \<open>9/10\<close>; the
  rounded product \<^verbatim>\<open>width * 0.9\<close> still truncates to \<open>\<lfloor>9 * width / 10\<rfloor>\<close>.
\<close>

lemma fl_nine_tenths: "fl (9 / 10) = 8106479329266893 / 2 ^ 53"
  by (simp add: fl_eval)

lemma ignore_right_float:
  assumes "w < 2 ^ 48"
  shows "trunc (fl (of_nat w * fl (9 / 10))) = int (ignore_right w)"
proof -
  define n where "n = 9 * w div 10"
  define P :: rat where "P = of_nat w * fl (9 / 10)"
  have P: "P = of_nat (9 * w) / 10 + of_nat w / (5 * 2 ^ 53)"
    unfolding P_def fl_nine_tenths by (simp add: field_simps)
  have w: "(of_nat w :: rat) < 2 ^ 48"
    using of_nat_less_iff[of w "2 ^ 48", where 'a = rat] assms by simp
  have "10 * n \<le> 9 * w" "9 * w \<le> 10 * n + 9" unfolding n_def by linarith+
  then have "(of_nat (10 * n) :: rat) \<le> of_nat (9 * w)"
    "(of_nat (9 * w) :: rat) \<le> of_nat (10 * n + 9)"
    by (simp_all only: of_nat_le_iff)
  then have lo9: "(of_nat n :: rat) \<le> of_nat (9 * w) / 10"
    and hi9: "(of_nat (9 * w) :: rat) / 10 \<le> of_nat n + 9 / 10"
    by simp_all
  have nonneg: "(0::rat) \<le> of_nat w / (5 * 2 ^ 53)" by simp
  have small: "(of_nat w :: rat) / (5 * 2 ^ 53) < 1 / 32" using w by simp
  have lo: "of_nat n \<le> P" unfolding P using lo9 nonneg by linarith
  have hi: "P \<le> of_nat (32 * n + 31) / 2 ^ 5" unfolding P using hi9 small by simp
  have n48: "n < 2 ^ 48" using assms unfolding n_def by simp
  have n53: "n < 2 ^ 53" and m53: "32 * n + 31 < 2 ^ 53" using n48 by simp_all
  have P0: "0 \<le> P" using lo by (meson of_nat_0_le_iff order_trans)
  have "fl (of_nat n) \<le> fl P" by (rule fl_mono[OF _ lo]) simp
  then have 1: "of_nat n \<le> fl P" unfolding fl_of_nat[OF n53] .
  have "fl P \<le> fl (of_nat (32 * n + 31) / 2 ^ 5)" by (rule fl_mono[OF P0 hi])
  then have "fl P \<le> of_nat (32 * n + 31) / 2 ^ 5" unfolding fl_dyadic[OF m53] .
  then have 2: "fl P < of_nat n + 1" by simp
  have "0 \<le> fl P" by (rule fl_nonneg[OF P0])
  then have "trunc (fl P) = \<lfloor>fl P\<rfloor>" by (simp add: trunc_def)
  also have "\<dots> = int n" using 1 2 by (simp add: floor_eq_iff)
  finally show ?thesis unfolding P_def n_def ignore_right_def .
qed

subsection \<open>Properties of the boundaries\<close>

lemma trunc_of_nat [simp]: "trunc (of_nat n) = int n"
  by (simp add: trunc_def)

lemma trunc_mono: "0 \<le> x \<Longrightarrow> x \<le> y \<Longrightarrow> trunc x \<le> trunc y"
  by (simp add: trunc_def floor_mono)

lemma boundary_0: "left_edge < 2 ^ 53 \<Longrightarrow> boundary left_edge sw 0 = int left_edge"
  by (simp add: boundary_def fl_of_nat)

lemma boundary_mono:
  assumes "0 \<le> sw" "i \<le> j"
  shows "boundary left_edge sw i \<le> boundary left_edge sw j"
proof -
  have "of_nat i * sw \<le> of_nat j * sw" using assms by (intro mult_right_mono) auto
  then have "fl (of_nat i * sw) \<le> fl (of_nat j * sw)" using assms(1) by (intro fl_mono) auto
  moreover have "0 \<le> fl (of_nat i * sw)" using assms(1) by (intro fl_nonneg) auto
  ultimately have "fl (of_nat left_edge + fl (of_nat i * sw)) \<le> fl (of_nat left_edge + fl (of_nat j * sw))"
    by (intro fl_mono) auto
  moreover have "0 \<le> fl (of_nat left_edge + fl (of_nat i * sw))"
    using \<open>0 \<le> fl (of_nat i * sw)\<close> by (intro fl_nonneg) auto
  ultimately show ?thesis unfolding boundary_def by (intro trunc_mono)
qed

lemma sector_width_nonneg:
  "left_edge \<le> right_edge \<Longrightarrow> 0 \<le> sector_width left_edge right_edge num_sectors"
  unfolding sector_width_def by (intro fl_nonneg) simp

lemma sector_boundaries_length [simp]:
  "length (sector_boundaries left_edge right_edge num_sectors) = num_sectors + 1"
  by (simp add: sector_boundaries_def)

lemma sector_boundaries_nth:
  "i \<le> num_sectors \<Longrightarrow> sector_boundaries left_edge right_edge num_sectors ! i
     = boundary left_edge (sector_width left_edge right_edge num_sectors) i"
  unfolding sector_boundaries_def by (simp add: nth_map_upt del: upt_Suc)

lemma sector_boundaries_sorted:
  assumes "left_edge \<le> right_edge"
  shows "sorted (sector_boundaries left_edge right_edge num_sectors)"
proof -
  let ?sw = "sector_width left_edge right_edge num_sectors"
  have "sorted_wrt (\<lambda>i j. boundary left_edge ?sw i \<le> boundary left_edge ?sw j) [0..<num_sectors + 1]"
  proof (rule sorted_wrt_mono_rel[OF _ sorted_upt])
    fix i j :: nat
    assume "i \<le> j"
    then show "boundary left_edge ?sw i \<le> boundary left_edge ?sw j"
      by (intro boundary_mono sector_width_nonneg[OF assms])
  qed
  then show ?thesis unfolding sector_boundaries_def sorted_map .
qed

lemma boundary_power_of_two:
  assumes "left_edge \<le> right_edge" "right_edge * 2 ^ k < 2 ^ 53" "i \<le> 2 ^ k"
  shows "boundary left_edge (sector_width left_edge right_edge (2 ^ k)) i
       = int ((left_edge * 2 ^ k + i * (right_edge - left_edge)) div 2 ^ k)"
proof -
  let ?w = "right_edge - left_edge"
  have w: "(of_nat right_edge - of_nat left_edge :: rat) = of_nat ?w"
    using assms(1) by (simp add: of_nat_diff)
  have "i * ?w \<le> 2 ^ k * ?w" using assms(3) by (intro mult_right_mono) auto
  then have "left_edge * 2 ^ k + i * ?w \<le> left_edge * 2 ^ k + 2 ^ k * ?w" by simp
  also have "\<dots> = (left_edge + ?w) * 2 ^ k" by (simp add: algebra_simps)
  also have "left_edge + ?w = right_edge" using assms(1) by simp
  finally have tot: "left_edge * 2 ^ k + i * ?w \<le> right_edge * 2 ^ k" .
  have b1: "?w < 2 ^ 53"
  proof -
    have "?w \<le> right_edge * 1" by simp
    also have "\<dots> \<le> right_edge * 2 ^ k" by (intro mult_left_mono) auto
    finally show ?thesis using assms(2) by simp
  qed
  have b2: "i * ?w < 2 ^ 53" using tot assms(2) by simp
  have b3: "left_edge * 2 ^ k + i * ?w < 2 ^ 53" using tot assms(2) by simp
  have sw: "sector_width left_edge right_edge (2 ^ k) = of_nat ?w / 2 ^ k"
    unfolding sector_width_def w using fl_dyadic[OF b1, of k] by simp
  have "fl (of_nat i * (of_nat ?w / 2 ^ k)) = fl (of_nat (i * ?w) / 2 ^ k)" by simp
  also have "\<dots> = of_nat (i * ?w) / 2 ^ k" by (rule fl_dyadic[OF b2])
  finally have p: "fl (of_nat i * (of_nat ?w / 2 ^ k)) = of_nat (i * ?w) / 2 ^ k" .
  have "of_nat left_edge + of_nat (i * ?w) / 2 ^ k = (of_nat (left_edge * 2 ^ k + i * ?w) / 2 ^ k :: rat)"
    by (simp add: field_simps)
  then have s: "fl (of_nat left_edge + of_nat (i * ?w) / 2 ^ k)
      = (of_nat (left_edge * 2 ^ k + i * ?w) / 2 ^ k :: rat)"
    using fl_dyadic[OF b3, of k] by simp
  have "trunc (of_nat (left_edge * 2 ^ k + i * ?w) / 2 ^ k :: rat)
      = \<lfloor>of_nat (left_edge * 2 ^ k + i * ?w) / of_nat (2 ^ k) :: rat\<rfloor>"
    by (simp add: trunc_def)
  also have "\<dots> = int ((left_edge * 2 ^ k + i * ?w) div 2 ^ k)"
    by (simp only: floor_divide_of_nat_eq)
  finally show ?thesis unfolding boundary_def sw p s .
qed

subsection \<open>The boundaries for every edge pair\<close>

lemma exact_boundary_floor:
  assumes "left_edge \<le> right_edge"
  shows "int ((left_edge * 2 ^ k + i * (right_edge - left_edge)) div 2 ^ k)
       = \<lfloor>of_nat left_edge + of_nat i * (of_nat right_edge - of_nat left_edge) / of_nat (2 ^ k) :: rat\<rfloor>"
proof -
  let ?w = "right_edge - left_edge"
  have w: "(of_nat right_edge - of_nat left_edge :: rat) = of_nat ?w"
    using assms by (simp add: of_nat_diff)
  have "(of_nat left_edge + of_nat i * of_nat ?w / of_nat (2 ^ k) :: rat)
      = of_nat (left_edge * 2 ^ k + i * ?w) / of_nat (2 ^ k)"
    by (simp add: field_simps)
  then show ?thesis unfolding w by (simp only: floor_divide_of_nat_eq)
qed


text \<open>
  What lines 78--79 give for every edge pair with \<open>left_edge \<le> right_edge\<close> and every sector
  count \<open>N \<ge> 1\<close> (with \<open>right_edge * N < 2^53\<close>): \<open>N + 1\<close> boundary columns, hence \<open>N\<close>
  sectors, non-decreasing, the first one \<open>left_edge\<close>. When \<open>N\<close> is a power of two (the
  default 32 is) the division is exact, every boundary is
  \<open>\<lfloor>left_edge + i * (right_edge - left_edge) / N\<rfloor>\<close> and the last one is \<open>right_edge\<close>.
\<close>

lemma sector_boundaries_general:
  assumes "1 \<le> num_sectors" and "left_edge \<le> right_edge"
    and "right_edge * num_sectors < 2 ^ 53"
  shows "length (sector_boundaries left_edge right_edge num_sectors) = num_sectors + 1
       \<and> sector_boundaries left_edge right_edge num_sectors ! 0 = int left_edge
       \<and> sorted (sector_boundaries left_edge right_edge num_sectors)
       \<and> ((\<exists>k. num_sectors = 2 ^ k) \<longrightarrow>
            (\<forall>i\<le>num_sectors. sector_boundaries left_edge right_edge num_sectors ! i
               = \<lfloor>of_nat left_edge
                   + of_nat i * (of_nat right_edge - of_nat left_edge) / of_nat num_sectors :: rat\<rfloor>)
            \<and> sector_boundaries left_edge right_edge num_sectors ! num_sectors = int right_edge)"
proof -
  have "right_edge * 1 \<le> right_edge * num_sectors" using assms(1) by (intro mult_left_mono) auto
  then have "right_edge \<le> right_edge * num_sectors" by simp
  with assms(2,3) have l: "left_edge < 2 ^ 53" by linarith
  have b0: "sector_boundaries left_edge right_edge num_sectors ! 0 = int left_edge"
    by (simp add: sector_boundaries_nth boundary_0[OF l])
  have pow: "(\<forall>i\<le>num_sectors. sector_boundaries left_edge right_edge num_sectors ! i
               = \<lfloor>of_nat left_edge
                   + of_nat i * (of_nat right_edge - of_nat left_edge) / of_nat num_sectors :: rat\<rfloor>)
            \<and> sector_boundaries left_edge right_edge num_sectors ! num_sectors = int right_edge"
    if "num_sectors = 2 ^ k" for k
  proof -
    have nth: "sector_boundaries left_edge right_edge (2 ^ k) ! i
        = int ((left_edge * 2 ^ k + i * (right_edge - left_edge)) div 2 ^ k)"
      if "i \<le> 2 ^ k" for i
      using that assms(2,3) \<open>num_sectors = 2 ^ k\<close>
      by (simp add: sector_boundaries_nth boundary_power_of_two)
    have "left_edge * 2 ^ k + 2 ^ k * (right_edge - left_edge) = right_edge * 2 ^ k"
      using assms(2) by (simp add: algebra_simps flip: add_mult_distrib2)
    then have last: "sector_boundaries left_edge right_edge (2 ^ k) ! (2 ^ k) = int right_edge"
      using nth[of "2 ^ k"] by simp
    have "sector_boundaries left_edge right_edge (2 ^ k) ! i
        = \<lfloor>of_nat left_edge
            + of_nat i * (of_nat right_edge - of_nat left_edge) / of_nat (2 ^ k) :: rat\<rfloor>"
      if "i \<le> 2 ^ k" for i
      using nth[OF that] exact_boundary_floor[OF assms(2), of k i] by (simp only:)
    with last show ?thesis unfolding that by blast
  qed
  have len: "length (sector_boundaries left_edge right_edge num_sectors) = num_sectors + 1"
    by (rule sector_boundaries_length)
  from pow have "(\<exists>k. num_sectors = 2 ^ k) \<longrightarrow>
            (\<forall>i\<le>num_sectors. sector_boundaries left_edge right_edge num_sectors ! i
               = \<lfloor>of_nat left_edge
                   + of_nat i * (of_nat right_edge - of_nat left_edge) / of_nat num_sectors :: rat\<rfloor>)
            \<and> sector_boundaries left_edge right_edge num_sectors ! num_sectors = int right_edge"
    by blast
  with len b0 sector_boundaries_sorted[OF assms(2)] show ?thesis by blast
qed

section \<open>Images and the edge-strength profile\<close>

text \<open>Python exception classes raised along the pipeline.\<close>

datatype error = OSError | ValueError | ZeroDivisionError | IndexError | NameError

text \<open>
  \<^verbatim>\<open>img_array\<close>: rows of pixels, a pixel being its channel values (0..255);
  \<^verbatim>\<open>height, width = img_array.shape[:2]\<close>.
\<close>

type_synonym pixel = "nat list"
type_synonym image = "pixel list list"

definition img_height :: "image \<Rightarrow> nat" where
  "img_height img_array = length img_array"

definition img_width :: "image \<Rightarrow> nat" where
  "img_width img_array = (case img_array of [] \<Rightarrow> 0 | row # _ \<Rightarrow> length row)"

definition img_channels :: "image \<Rightarrow> nat" where
  "img_channels img_array =
     (case img_array of [] \<Rightarrow> 0 | row # _ \<Rightarrow> (case row of [] \<Rightarrow> 0 | px # _ \<Rightarrow> length px))"

text \<open>
  Lines 47--51: column averages, their channel mean, min-max normalisation with the
  \<open>1e-10\<close> guard, \<^verbatim>\<open>np.gradient\<close> (central differences, one-sided at both ends; it raises
  \<^verbatim>\<open>ValueError\<close> on fewer than two samples) and the absolute value. The arithmetic is exact
  rational arithmetic, where the code rounds to doubles: two columns of equal strength here
  can differ in the last bit there, and a peak can then sit one column further. The claims
  below that quantify over images hold for every edge-strength profile, so they do not
  depend on the rounding of these steps; a uniform image has the profile zero in both.
\<close>

definition mean :: "rat list \<Rightarrow> rat" where
  "mean xs = sum_list xs / of_nat (length xs)"

definition column_mean :: "image \<Rightarrow> nat \<Rightarrow> rat list" where
  "column_mean img_array x =
     map (\<lambda>c. mean (map (\<lambda>row. of_nat (row ! x ! c)) img_array)) [0..<img_channels img_array]"

definition avg_colors :: "image \<Rightarrow> rat list list" where
  "avg_colors img_array = map (column_mean img_array) [0..<img_width img_array]"

definition grayscale :: "image \<Rightarrow> rat list" where
  "grayscale img_array = map mean (avg_colors img_array)"

definition normalise :: "rat list \<Rightarrow> rat list" where
  "normalise gs =
     (let lo = Min (set gs); hi = Max (set gs)
      in map (\<lambda>g. (g - lo) / (hi - lo + 1 / 10 ^ 10)) gs)"

definition np_gradient :: "rat list \<Rightarrow> error + rat list" where
  "np_gradient f =
     (let n = length f
      in if n < 2 then Inl ValueError
         else Inr (map (\<lambda>i. if i = 0 then f ! 1 - f ! 0
                              else if i = n - 1 then f ! (n - 1) - f ! (n - 2)
                              else (f ! (i + 1) - f ! (i - 1)) / 2) [0..<n]))"

definition edge_strength :: "image \<Rightarrow> error + rat list" where
  "edge_strength img_array =
     (let gs = grayscale img_array
      in if gs = [] then Inl ValueError
         else (case np_gradient (normalise gs) of
                 Inl e \<Rightarrow> Inl e
               | Inr gradient \<Rightarrow> Inr (map abs gradient)))"

definition edge_detector :: "image \<Rightarrow> error + nat \<times> nat" where
  "edge_detector img_array =
     (case edge_strength img_array of
        Inl e \<Rightarrow> Inl e
      | Inr gradient_magnitude \<Rightarrow> Inr (detect_edges gradient_magnitude))"

definition flat_image :: "nat \<Rightarrow> nat \<Rightarrow> pixel \<Rightarrow> image" where
  "flat_image h w px = replicate h (replicate w px)"

lemma local_maxima_loop_const:
  "\<forall>i<length x. x ! i = v \<Longrightarrow> local_maxima_loop x i acc = acc"
proof (induction x i acc rule: local_maxima_loop.induct)
  case (1 x i acc)
  show ?case
  proof (cases "i < length x - 1")
    case True
    with "1.prems" have eq: "x ! (i - 1) = v" "x ! i = v" by auto
    then have nl: "\<not> x ! (i - 1) < x ! i" by simp
    from "1.IH"(3)[OF True nl "1.prems"] True nl show ?thesis
      by (subst local_maxima_loop.simps) simp
  next
    case False
    then show ?thesis by (subst local_maxima_loop.simps) simp
  qed
qed

lemma find_peaks_const: "find_peaks (replicate w v) h d = []"
proof -
  have "local_maxima_1d (replicate w v) = []"
    unfolding local_maxima_1d_def by (rule local_maxima_loop_const[where v = v]) simp
  then show ?thesis by (simp add: find_peaks_def select_kept_def)
qed

lemma modified_gradient_zeros: "modified_gradient (replicate w 0) = replicate w 0"
proof -
  have "ignore_right w \<le> w" by (simp add: ignore_right_def)
  then show ?thesis
    by (simp add: modified_gradient_def Let_def min_def flip: replicate_add)
qed

lemma detect_edges_zeros:
  "detect_edges (replicate w 0) = (w div 4, min (3 * w div 4) (ignore_right w))"
  by (simp add: detect_edges_def Let_def modified_gradient_zeros find_peaks_const)

lemma mean_replicate: "0 < h \<Longrightarrow> mean (replicate h v) = v"
  by (simp add: mean_def sum_list_replicate)

lemma width_flat [simp]: "0 < h \<Longrightarrow> img_width (flat_image h w px) = w"
  by (cases h) (simp_all add: img_width_def flat_image_def)

lemma height_flat [simp]: "img_height (flat_image h w px) = h"
  by (simp add: img_height_def flat_image_def)

lemma channels_flat [simp]: "0 < h \<Longrightarrow> 0 < w \<Longrightarrow> img_channels (flat_image h w px) = length px"
  by (cases h; cases w) (simp_all add: img_channels_def flat_image_def)

lemma column_mean_flat:
  "0 < h \<Longrightarrow> x < w \<Longrightarrow> column_mean (flat_image h w px) x = map of_nat px"
proof -
  assume h: "0 < h" and x: "x < w"
  have "map (\<lambda>row. (of_nat (row ! x ! c) :: rat)) (flat_image h w px) = replicate h (of_nat (px ! c))" for c
    using x by (simp add: flat_image_def map_replicate)
  then have "column_mean (flat_image h w px) x = map (\<lambda>c. of_nat (px ! c)) [0..<length px]"
    using h x by (simp add: column_mean_def mean_replicate)
  also have "\<dots> = map of_nat px" by (rule nth_equalityI) simp_all
  finally show ?thesis .
qed

lemma grayscale_flat:
  assumes "0 < h"
  shows "grayscale (flat_image h w px) = replicate w (mean (map of_nat px))"
proof -
  have "avg_colors (flat_image h w px) = map (\<lambda>x. map of_nat px) [0..<w]"
    unfolding avg_colors_def using assms by (simp add: column_mean_flat)
  then show ?thesis by (simp add: grayscale_def map_replicate_const comp_def)
qed

lemma normalise_replicate: "0 < w \<Longrightarrow> normalise (replicate w g) = replicate w 0"
  by (simp add: normalise_def Let_def map_replicate)

lemma np_gradient_zeros: "2 \<le> w \<Longrightarrow> np_gradient (replicate w 0) = Inr (replicate w 0)"
  by (auto simp: np_gradient_def Let_def map_replicate_const[symmetric] simp del: map_replicate_const
           intro!: nth_equalityI)

lemma edge_strength_flat:
  assumes "0 < h" "2 \<le> w"
  shows "edge_strength (flat_image h w px) = Inr (replicate w 0)"
  using assms
  by (simp add: edge_strength_def Let_def grayscale_flat normalise_replicate np_gradient_zeros)

lemma edge_detector_flat:
  assumes "0 < h" "2 \<le> w"
  shows "edge_detector (flat_image h w px) = Inr (w div 4, min (3 * w div 4) (ignore_right w))"
  by (simp add: edge_detector_def edge_strength_flat[OF assms] detect_edges_zeros)

lemma grayscale_length [simp]: "length (grayscale img) = img_width img"
  by (simp add: grayscale_def avg_colors_def)

lemma normalise_length [simp]: "length (normalise gs) = length gs"
  by (simp add: normalise_def Let_def)

lemma edge_strength_small:
  "img_width img < 2 \<Longrightarrow> edge_strength img = Inl ValueError"
  by (auto simp: edge_strength_def Let_def np_gradient_def)

lemma edge_strength_ok:
  assumes "2 \<le> img_width img"
  obtains gm where "edge_strength img = Inr gm" "length gm = img_width img"
proof -
  have ne: "grayscale img \<noteq> []" using assms by (metis grayscale_length length_0_conv not_numeral_le_zero)
  have "\<not> length (normalise (grayscale img)) < 2" using assms by simp
  then obtain g where g: "np_gradient (normalise (grayscale img)) = Inr g" "length g = img_width img"
    by (simp add: np_gradient_def Let_def)
  then have "edge_strength img = Inr (map abs g)" using ne by (simp add: edge_strength_def Let_def)
  with g(2) show ?thesis by (intro that[of "map abs g"]) simp_all
qed

section \<open>Claim C1: the range of the detected edges\<close>

lemma detect_edges_fallback:
  "length (peaks_of gm) < 2 \<Longrightarrow>
   detect_edges gm = (length gm div 4, min (3 * length gm div 4) (ignore_right (length gm)))"
  by (simp add: detect_edges_def Let_def peaks_of_def)

lemma fb1: "2 \<le> (w::nat) \<Longrightarrow> w div 4 < 3 * w div 4" by linarith
lemma fb2: "2 \<le> (w::nat) \<Longrightarrow> w div 4 < 9 * w div 10" by linarith
lemma fb3: "5 \<le> (w::nat) \<Longrightarrow> 3 * w div 4 < 9 * w div 10"
proof (cases "7 \<le> w")
  case True
  then show ?thesis by linarith
next
  case False
  assume "5 \<le> w"
  with False have "w = 5 \<or> w = 6" by linarith
  then show ?thesis by auto
qed
lemma fallback_bounds:
  assumes "2 \<le> w"
  shows "w div 4 < min (3 * w div 4) (ignore_right w)"
    and "min (3 * w div 4) (ignore_right w) \<le> ignore_right w"
    and "5 \<le> w \<Longrightarrow> min (3 * w div 4) (ignore_right w) < ignore_right w"
  using fb1[OF assms] fb2[OF assms] fb3[of w] unfolding ignore_right_def by simp_all


text \<open>
  Claim C1 as stated fails on the code: for a uniform image of width 4 no peak is found and
  the fallback returns \<open>left_edge = 1\<close>, \<open>right_edge = min (3, 3) = 3\<close>, above
  \<open>\<lfloor>0.9 * 4\<rfloor> - 1 = 2\<close>, with \<open>left_edge < right_edge\<close> and a width that is not below 4.
\<close>

theorem C1_counterexample:
  "img_width (flat_image 1 4 [128, 128, 128]) = 4
   \<and> edge_detector (flat_image 1 4 [128, 128, 128]) = Inr (1, 3)
   \<and> \<not> (int 3 \<le> int (ignore_right 4) - 1)
   \<and> \<not> ((1::nat) = 3 \<and> (4::nat) < 4)"
  using edge_detector_flat[of 1 4 "[128, 128, 128]"]
  by (simp add: ignore_right_def)


text \<open>
  Claim C1, amended. For an image of width 1 (or 0) the gradient computation raises and no
  edge pair is returned. For every image of width at least 2 the Edge Detector returns an
  edge pair with \<open>0 \<le> left_edge < right_edge \<le> \<lfloor>0.9 * width\<rfloor>\<close>, and
  \<open>right_edge \<le> \<lfloor>0.9 * width\<rfloor> - 1\<close> whenever at least two peaks were found or the width is
  at least 5; \<open>left_edge = right_edge\<close> never occurs.
\<close>

theorem C1_edge_detector:
  "(img_width img < 2 \<longrightarrow> edge_detector img = Inl ValueError)
   \<and> (2 \<le> img_width img \<longrightarrow>
        (\<exists>gm left_edge right_edge.
            edge_strength img = Inr gm \<and> length gm = img_width img
          \<and> edge_detector img = Inr (left_edge, right_edge)
          \<and> 0 \<le> left_edge \<and> left_edge < right_edge
          \<and> right_edge \<le> ignore_right (img_width img)
          \<and> (5 \<le> img_width img \<or> 2 \<le> length (peaks_of gm)
               \<longrightarrow> right_edge < ignore_right (img_width img))))"
proof (intro conjI impI)
  assume "img_width img < 2"
  then show "edge_detector img = Inl ValueError"
    by (simp add: edge_detector_def edge_strength_small)
next
  assume w: "2 \<le> img_width img"
  then obtain gm where gm: "edge_strength img = Inr gm" "length gm = img_width img"
    by (rule edge_strength_ok)
  obtain l r where lr: "detect_edges gm = (l, r)" by (cases "detect_edges gm")
  have ed: "edge_detector img = Inr (l, r)" by (simp add: edge_detector_def gm lr)
  have "l < r \<and> r \<le> ignore_right (img_width img)
      \<and> (5 \<le> img_width img \<or> 2 \<le> length (peaks_of gm) \<longrightarrow> r < ignore_right (img_width img))"
  proof (cases "2 \<le> length (peaks_of gm)")
    case True
    note b = detect_edges_peak_branch[OF True]
    from b(5) lr have pe: "peak_edges (modified_gradient gm) (peaks_of gm) = (l, r)" by simp
    from b(3) b(4) show ?thesis unfolding pe gm(2) by simp
  next
    case False
    then have "detect_edges gm = (img_width img div 4,
        min (3 * img_width img div 4) (ignore_right (img_width img)))"
      using detect_edges_fallback[of gm] gm(2) by simp
    with lr have l: "l = img_width img div 4"
      and r: "r = min (3 * img_width img div 4) (ignore_right (img_width img))" by simp_all
    from fallback_bounds[OF w] False show ?thesis unfolding l r by simp
  qed
  then have "edge_strength img = Inr gm \<and> length gm = img_width img
          \<and> edge_detector img = Inr (l, r)
          \<and> 0 \<le> l \<and> l < r
          \<and> r \<le> ignore_right (img_width img)
          \<and> (5 \<le> img_width img \<or> 2 \<le> length (peaks_of gm)
               \<longrightarrow> r < ignore_right (img_width img))"
    using gm ed by simp
  then have "\<exists>right_edge. edge_strength img = Inr gm \<and> length gm = img_width img
          \<and> edge_detector img = Inr (l, right_edge)
          \<and> 0 \<le> l \<and> l < right_edge
          \<and> right_edge \<le> ignore_right (img_width img)
          \<and> (5 \<le> img_width img \<or> 2 \<le> length (peaks_of gm)
               \<longrightarrow> right_edge < ignore_right (img_width img))"
    by (rule exI[of _ r])
  then have "\<exists>left_edge right_edge. edge_strength img = Inr gm \<and> length gm = img_width img
          \<and> edge_detector img = Inr (left_edge, right_edge)
          \<and> 0 \<le> left_edge \<and> left_edge < right_edge
          \<and> right_edge \<le> ignore_right (img_width img)
          \<and> (5 \<le> img_width img \<or> 2 \<le> length (peaks_of gm)
               \<longrightarrow> right_edge < ignore_right (img_width img))"
    by (rule exI[of _ l])
  then show "\<exists>gm left_edge right_edge.
            edge_strength img = Inr gm \<and> length gm = img_width img
          \<and> edge_detector img = Inr (left_edge, right_edge)
          \<and> 0 \<le> left_edge \<and> left_edge < right_edge
          \<and> right_edge \<le> ignore_right (img_width img)
          \<and> (5 \<le> img_width img \<or> 2 \<le> length (peaks_of gm)
               \<longrightarrow> right_edge < ignore_right (img_width img))"
    by (rule exI[of _ gm])
qed

theorem C1_witness:
  "2 \<le> img_width (flat_image 2 10 [7, 7, 7]) \<and> 5 \<le> img_width (flat_image 2 10 [7, 7, 7])
   \<and> edge_detector (flat_image 2 10 [7, 7, 7]) = Inr (2, 7)
   \<and> (2::nat) < 7 \<and> (7::nat) < ignore_right (img_width (flat_image 2 10 [7, 7, 7]))
   \<and> img_width (flat_image 1 1 [128, 128, 128]) < 2
   \<and> edge_detector (flat_image 1 1 [128, 128, 128]) = Inl ValueError"
proof -
  let ?img = "flat_image 2 10 [7, 7, 7]"
  have w: "2 \<le> img_width ?img" and w5: "5 \<le> img_width ?img" by simp_all
  have e: "edge_detector ?img = Inr (2, 7)"
    using edge_detector_flat[of 2 10 "[7, 7, 7]"] by (simp add: ignore_right_def)
  have w1: "img_width (flat_image 1 1 [128, 128, 128]) < 2" by simp
  from C1_edge_detector[of ?img] w obtain gm l r where
    "edge_detector ?img = Inr (l, r)" "l < r"
    "5 \<le> img_width ?img \<or> 2 \<le> length (peaks_of gm) \<longrightarrow> r < ignore_right (img_width ?img)"
    by blast
  with e w5 have "(2::nat) < 7" "(7::nat) < ignore_right (img_width ?img)" by simp_all
  moreover from C1_edge_detector[of "flat_image 1 1 [128, 128, 128]"] w1
  have "edge_detector (flat_image 1 1 [128, 128, 128]) = Inl ValueError" by blast
  ultimately show ?thesis using w w5 e w1 by blast
qed

section \<open>Sector colours (process\_spectrum, lines 88--92)\<close>

text \<open>
  \<^verbatim>\<open>img_array[:, a:b]\<close> for non-negative column indices, as the list of its pixels, and
  \<^verbatim>\<open>np.mean(sector, axis=(0,1)).astype(int)\<close>. The sum of the 8-bit channel values is
  exact in double precision, so the truncated mean is the integer quotient. The mean of an
  empty block is NaN (numpy warns and goes on); what the integer cast makes of NaN depends
  on the platform (\<open>-2^63\<close> on x86-64, 0 on AArch64) and is the parameter \<open>nan_int\<close>.
\<close>

definition sector :: "image \<Rightarrow> int \<Rightarrow> int \<Rightarrow> pixel list" where
  "sector img_array a b = concat (map (\<lambda>row. take (nat b - nat a) (drop (nat a) row)) img_array)"

definition channel_mean :: "pixel list \<Rightarrow> nat \<Rightarrow> rat" where
  "channel_mean block c = mean (map (\<lambda>px. of_nat (px ! c)) block)"

definition avg_color :: "int \<Rightarrow> nat \<Rightarrow> pixel list \<Rightarrow> int list" where
  "avg_color nan_int c block =
     (if block = [] then replicate c nan_int
      else map (\<lambda>k. trunc (channel_mean block k)) [0..<c])"

section \<open>Classification and report (process\_folder, lines 157--167)\<close>

text \<open>Python's \<^verbatim>\<open>str\<close> on a non-negative integer.\<close>

fun str :: "nat \<Rightarrow> string" where
  "str n = (if n < 10 then [''0123456789'' ! n]
            else str (n div 10) @ [''0123456789'' ! (n mod 10)])"

declare str.simps [simp del]

text \<open>
  The cast of a double to a 64-bit integer: truncation, and the platform's value for an
  operand out of range.
\<close>

definition astype_int :: "int \<Rightarrow> rat \<Rightarrow> int" where
  "astype_int nan_int x =
     (if - (2 ^ 63) \<le> trunc x \<and> trunc x < 2 ^ 63 then trunc x else nan_int)"

text \<open>\<^verbatim>\<open>np.round(np.array(color) / 255 * 360).astype(int)\<close>, channel by channel.\<close>

definition hue_value :: "int \<Rightarrow> int \<Rightarrow> int" where
  "hue_value nan_int c =
     astype_int nan_int (of_int (round_half_even (fl (fl (of_int c / 255) * 360))))"

definition hsv :: "int \<Rightarrow> int list \<Rightarrow> int list" where
  "hsv nan_int color = map (hue_value nan_int) color"

text \<open>
  The \<^verbatim>\<open>if / elif / elif\<close> chain has no \<^verbatim>\<open>else\<close>: when no branch is taken the variable
  \<^verbatim>\<open>sell\<close> keeps what it held before (\<open>None\<close>: not yet bound).
\<close>

definition classify :: "string option \<Rightarrow> int \<Rightarrow> string option" where
  "classify sell h =
     (if h \<ge> 200 then Some ''Don't sell''
      else if h \<ge> 125 then Some ''Squeeze room''
      else if h < 125 then Some ''Sell''
      else sell)"

text \<open>
  The loop over \<^verbatim>\<open>enumerate(result['sector_colors'])\<close>: the text written so far and the
  exception that ended the loop, if any.
\<close>

fun write_lines :: "int \<Rightarrow> nat \<Rightarrow> string option \<Rightarrow> int list list \<Rightarrow> string \<times> error option" where
  "write_lines nan_int i sell [] = ([], None)"
| "write_lines nan_int i sell (color # colors) =
     (case hsv nan_int color of
        [] \<Rightarrow> ([], Some IndexError)
      | h # _ \<Rightarrow>
          (case classify sell h of
             None \<Rightarrow> ([], Some NameError)
           | Some s \<Rightarrow>
               (let (rest, err) = write_lines nan_int (i + 1) (Some s) colors
                in (''Sector '' @ str (i + 1) @ '', '' @ s @ ''\<newline>'' @ rest, err))))"

definition write_report :: "int \<Rightarrow> int list list \<Rightarrow> string \<times> error option" where
  "write_report nan_int colors =
     (let (lines, err) = write_lines nan_int 0 None colors
      in (''Sector #, Opinion\<newline>'' @ lines, err))"

section \<open>Claim C4: classification and report format\<close>

text \<open>The threshold table of the specification.\<close>

definition spec_label :: "int \<Rightarrow> string" where
  "spec_label v = (if 200 \<le> v then ''Don't sell''
                   else if 125 \<le> v then ''Squeeze room'' else ''Sell'')"

definition report_line :: "int \<Rightarrow> nat \<Rightarrow> int list \<Rightarrow> string" where
  "report_line nan_int i color =
     ''Sector '' @ str (i + 1) @ '', '' @ spec_label (hue_value nan_int (hd color)) @ ''\<newline>''"

lemma classify_total: "classify sell h = Some (spec_label h)"
  by (simp add: classify_def spec_label_def)

lemma write_lines_closed_form:
  "\<forall>color\<in>set colors. color \<noteq> [] \<Longrightarrow>
   write_lines nan_int i sell colors
     = (concat (map (\<lambda>k. report_line nan_int (i + k) (colors ! k)) [0..<length colors]), None)"
proof (induction colors arbitrary: i sell)
  case Nil
  then show ?case by simp
next
  case (Cons color colors)
  from Cons.prems obtain c cs where c: "color = c # cs" by (cases color) auto
  have IH: "write_lines nan_int (i + 1) (Some (spec_label (hue_value nan_int c))) colors
     = (concat (map (\<lambda>k. report_line nan_int (i + 1 + k) (colors ! k)) [0..<length colors]), None)"
    using Cons.prems by (intro Cons.IH) simp
  have m: "map (\<lambda>k. report_line nan_int (i + k) ((color # colors) ! k)) [0..<length (color # colors)]
      = report_line nan_int i color
        # map (\<lambda>k. report_line nan_int (i + 1 + k) (colors ! k)) [0..<length colors]"
    by (simp add: map_upt_Suc del: upt_Suc)
  have step: "write_lines nan_int i sell (color # colors)
      = (report_line nan_int i color
           @ fst (write_lines nan_int (i + 1) (Some (spec_label (hue_value nan_int c))) colors),
         snd (write_lines nan_int (i + 1) (Some (spec_label (hue_value nan_int c))) colors))"
    by (simp add: c hsv_def classify_total report_line_def case_prod_beta)
  show ?case unfolding step IH m by simp
qed


text \<open>
  Claim C4. The label of a sector is a total function of the value
  \<^verbatim>\<open>round(red / 255 * 360)\<close> of its red channel alone: 200 and above gives ``Don't sell'',
  125 to 199 ``Squeeze room'', below 125 ``Sell'' (the third \<^verbatim>\<open>elif\<close> always fires, so no
  label is ever missing or inherited). The report is the header line
  \<^verbatim>\<open>Sector #, Opinion\<close> followed by exactly one line \<^verbatim>\<open>Sector <i+1>, <label>\<close> per
  sector colour, and writing it raises nothing.
\<close>

theorem C4_classification_and_report:
  assumes "\<forall>color\<in>set colors. color \<noteq> []"
  shows "(\<forall>sell h. classify sell h
            = Some (if 200 \<le> h then ''Don't sell''
                    else if 125 \<le> h then ''Squeeze room'' else ''Sell''))
       \<and> write_report nan_int colors
          = (''Sector #, Opinion\<newline>''
               @ concat (map (\<lambda>i. ''Sector '' @ str (i + 1) @ '', ''
                                   @ spec_label (hue_value nan_int (hd (colors ! i)))
                                   @ ''\<newline>'') [0..<length colors]),
             None)"
  using write_lines_closed_form[OF assms, of nan_int 0 None]
  by (simp add: write_report_def classify_total spec_label_def report_line_def)

theorem C4_witness:
  "[255, 0, 0 :: int] \<noteq> [] \<and> [100, 200, 50 :: int] \<noteq> [] \<and> [0, 9, 9 :: int] \<noteq> []
   \<and> write_report 0 [[255, 0, 0], [100, 200, 50], [0, 9, 9]]
      = (''Sector #, Opinion\<newline>Sector 1, Don't sell\<newline>Sector 2, Squeeze room\<newline>Sector 3, Sell\<newline>'',
         None)"
proof -
  have h: "\<forall>color\<in>set [[255, 0, 0], [100, 200, 50], [0, 9, 9 :: int]]. color \<noteq> []" by simp
  have v: "hue_value 0 255 = 360" "hue_value 0 100 = 141" "hue_value 0 0 = 0"
    by (simp_all add: hue_value_def astype_int_def fl_eval)
  have s: "str (Suc 0) = ''1''" "str (Suc (Suc 0)) = ''2''" "str (Suc (Suc (Suc 0))) = ''3''"
    "str 1 = ''1''" "str 2 = ''2''" "str 3 = ''3''"
    by (simp_all add: str.simps numeral_2_eq_2 numeral_3_eq_3)
  from C4_classification_and_report[OF h, of 0]
  have "write_report 0 [[255, 0, 0], [100, 200, 50], [0, 9, 9]]
      = (''Sector #, Opinion\<newline>''
               @ concat (map (\<lambda>i. ''Sector '' @ str (i + 1) @ '', ''
                                   @ spec_label (hue_value 0 (hd ([[255, 0, 0], [100, 200, 50], [0, 9, 9]] ! i)))
                                   @ ''\<newline>'') [0..<length [[255, 0, 0], [100, 200, 50], [0, 9, 9 :: int]]]),
             None)"
    by (rule conjunct2)
  then have "write_report 0 [[255, 0, 0], [100, 200, 50], [0, 9, 9]]
      = (''Sector #, Opinion\<newline>Sector 1, Don't sell\<newline>Sector 2, Squeeze room\<newline>Sector 3, Sell\<newline>'',
         None)"
    by (simp add: v s spec_label_def upt_rec)
  then show ?thesis by simp
qed

section \<open>process\_spectrum\<close>

text \<open>
  What the function touches outside itself is explicit. The environment \<open>env\<close> holds the
  answers of the libraries and of the file system: whether a TrueType font loads, what
  \<^verbatim>\<open>Image.open\<close> decodes (\<open>None\<close>: it raises), the text metrics, the rasteriser behind
  \<^verbatim>\<open>ImageDraw\<close> (any function from drawing command and canvas to canvas), whether
  \<^verbatim>\<open>img.save\<close> and \<^verbatim>\<open>open(..., "w")\<close> succeed, the platform's integer cast of NaN and
  the directory listing. The \<open>world\<close> is what the program writes: images, reports and the
  printed messages. The images are colour images (a pixel is an RGB triple), on which the
  drawing calls with their RGB colours do not raise: \<open>draw\<close> and \<open>textbbox\<close> are total.
\<close>

datatype font = TrueType string nat | DefaultFont

type_synonym colour = "nat \<times> nat \<times> nat"

datatype draw_op =
    Rectangle "int \<times> int \<times> int \<times> int" "colour option" "colour option" nat
  | Line "int \<times> int" "int \<times> int" colour nat
  | Text "int \<times> int" string colour font

datatype message = Processing string | Saved string | ErrorImage error | ErrorFile string error

record env =
  truetype :: "string \<Rightarrow> nat \<Rightarrow> bool"
  image_open :: "string \<Rightarrow> image option"
  textbbox :: "string \<Rightarrow> font \<Rightarrow> int \<times> int \<times> int \<times> int"
  draw :: "draw_op \<Rightarrow> image \<Rightarrow> image"
  image_save :: "string \<Rightarrow> bool"
  file_open :: "string \<Rightarrow> bool"
  nan_cast :: int
  listdir :: "string \<Rightarrow> string list"

record world =
  saved_images :: "string \<rightharpoonup> image"
  reports :: "string \<rightharpoonup> string"
  stdout :: "message list"

text \<open>
  The two pixel stores of a call: \<open>img\<close>, the PIL image that \<^verbatim>\<open>ImageDraw.Draw(img)\<close>
  draws on and \<^verbatim>\<open>img.save\<close> writes, and \<open>img_array\<close>, the copy \<^verbatim>\<open>np.array(img)\<close> made
  of it before anything was drawn.
\<close>

record pstate =
  img :: image
  img_array :: image

text \<open>The dictionary returned by \<^verbatim>\<open>process_spectrum\<close>.\<close>

record result =
  edges :: "nat \<times> nat"
  boundaries :: "int list"
  sector_colors :: "int list list"
  spectrum_width :: int

definition load_font :: "env \<Rightarrow> string \<Rightarrow> nat \<Rightarrow> font" where
  "load_font e name pt = (if truetype e name pt then TrueType name pt else DefaultFont)"

definition draw_title :: "env \<Rightarrow> string \<Rightarrow> pstate \<Rightarrow> pstate" where
  "draw_title e title st =
     (let width = img_width (img_array st);
          font = load_font e ''arial.ttf'' 40;
          (x0, y0, x1, y1) = textbbox e title font;
          title_x = (int width - (x1 - x0)) div 2;
          st1 = st\<lparr>img := draw e (Rectangle (title_x - 5, 5, title_x + x1 + 5, y1 + 15)
                                   (Some (255, 255, 255)) None 1) (img st)\<rparr>
      in st1\<lparr>img := draw e (Text (title_x, 10) title (0, 0, 0) font) (img st1)\<rparr>)"

definition draw_edges :: "env \<Rightarrow> nat \<Rightarrow> nat \<Rightarrow> pstate \<Rightarrow> pstate" where
  "draw_edges e left_edge right_edge st =
     (let height = int (img_height (img_array st));
          st1 = st\<lparr>img := draw e (Rectangle (int left_edge, 0, int right_edge, height)
                                   None (Some (0, 255, 0)) 2) (img st)\<rparr>;
          st2 = st1\<lparr>img := draw e (Line (int left_edge, 0) (int left_edge, height) (0, 0, 0) 3)
                                   (img st1)\<rparr>
      in st2\<lparr>img := draw e (Line (int right_edge, 0) (int right_edge, height) (0, 0, 0) 3)
                                   (img st2)\<rparr>)"

text \<open>One round of the loop \<^verbatim>\<open>for i in range(num_sectors+1)\<close>.\<close>

definition sector_step ::
  "env \<Rightarrow> font \<Rightarrow> int list \<Rightarrow> nat \<Rightarrow> pstate \<times> int list list \<Rightarrow> nat \<Rightarrow> pstate \<times> int list list" where
  "sector_step e numFont bounds num_sectors acc i =
     (let (st, colors) = acc;
          height = int (img_height (img_array st));
          x = bounds ! i;
          st1 = (if 0 < i \<and> i < num_sectors
                 then st\<lparr>img := draw e (Line (x, 0) (x, height) (0, 0, 0) 1) (img st)\<rparr>
                 else st);
          colors1 = (if i < num_sectors
                     then colors @ [avg_color (nan_cast e) (img_channels (img_array st1))
                                      (sector (img_array st1) (bounds ! i) (bounds ! (i + 1)))]
                     else colors);
          st2 = (if i < num_sectors
                 then st1\<lparr>img := draw e (Text (x + 5, height - 60) (str (i + 1)) (0, 0, 0) numFont)
                                        (img st1)\<rparr>
                 else st1)
      in (st2, colors1))"

text \<open>
  The body of the \<^verbatim>\<open>try\<close>: the annotated image and the result, or the exception. With
  \<^verbatim>\<open>num_sectors = 0\<close> line 78 divides by zero: a \<^verbatim>\<open>ZeroDivisionError\<close> on the Python
  integers of the fallback, an infinite width and then \<^verbatim>\<open>int(nan)\<close> on the numpy integers
  of the peak branch.
\<close>

definition process_spectrum_try ::
  "env \<Rightarrow> string \<Rightarrow> string \<Rightarrow> string \<Rightarrow> nat \<Rightarrow> error + image \<times> result" where
  "process_spectrum_try e input_path output_path title num_sectors =
     (let numFont = load_font e ''arial.ttf'' 12
      in case image_open e input_path of
           None \<Rightarrow> Inl OSError
         | Some decoded \<Rightarrow>
             (let st = draw_title e title \<lparr>img = decoded, img_array = decoded\<rparr>
              in case edge_strength (img_array st) of
                   Inl err \<Rightarrow> Inl err
                 | Inr gradient_magnitude \<Rightarrow>
                     (let (left_edge, right_edge) = detect_edges gradient_magnitude;
                          st1 = draw_edges e left_edge right_edge st
                      in if num_sectors = 0
                         then Inl (if 2 \<le> length (peaks_of gradient_magnitude)
                                   then ValueError else ZeroDivisionError)
                         else (let bounds = sector_boundaries left_edge right_edge num_sectors;
                                   (st2, colors) = foldl (sector_step e numFont bounds num_sectors)
                                                     (st1, []) [0..<num_sectors + 1]
                               in if image_save e output_path
                                  then Inr (img st2,
                                            \<lparr>edges = (left_edge, right_edge),
                                             boundaries = bounds,
                                             sector_colors = colors,
                                             spectrum_width = int right_edge - int left_edge\<rparr>)
                                  else Inl OSError))))"

definition process_spectrum ::
  "env \<Rightarrow> string \<Rightarrow> string \<Rightarrow> string \<Rightarrow> nat \<Rightarrow> world \<Rightarrow> result option \<times> world" where
  "process_spectrum e input_path output_path title num_sectors w =
     (case process_spectrum_try e input_path output_path title num_sectors of
        Inl err \<Rightarrow> (None, w\<lparr>stdout := stdout w @ [ErrorImage err]\<rparr>)
      | Inr (out, res) \<Rightarrow>
          (Some res, w\<lparr>saved_images := (saved_images w)(output_path \<mapsto> out),
                       stdout := stdout w @ [Saved output_path]\<rparr>))"

text \<open>
  The sector colours as a function of the pixel array alone, and the whole analysis of a
  pixel array: what \<^verbatim>\<open>process_spectrum\<close> returns when nothing fails around it.
\<close>

definition sector_colors_of :: "int \<Rightarrow> image \<Rightarrow> int list \<Rightarrow> nat \<Rightarrow> int list list" where
  "sector_colors_of nan arr bounds num_sectors =
     map (\<lambda>i. avg_color nan (img_channels arr) (sector arr (bounds ! i) (bounds ! (i + 1))))
       [0..<num_sectors]"

definition analyse :: "int \<Rightarrow> image \<Rightarrow> nat \<Rightarrow> error + result" where
  "analyse nan arr num_sectors =
     (case edge_strength arr of
        Inl err \<Rightarrow> Inl err
      | Inr gradient_magnitude \<Rightarrow>
          (let (left_edge, right_edge) = detect_edges gradient_magnitude
           in if num_sectors = 0
              then Inl (if 2 \<le> length (peaks_of gradient_magnitude)
                        then ValueError else ZeroDivisionError)
              else (let bounds = sector_boundaries left_edge right_edge num_sectors
                    in Inr \<lparr>edges = (left_edge, right_edge),
                            boundaries = bounds,
                            sector_colors = sector_colors_of nan arr bounds num_sectors,
                            spectrum_width = int right_edge - int left_edge\<rparr>)))"

lemma draw_title_img_array [simp]: "img_array (draw_title e title st) = img_array st"
  by (simp add: draw_title_def Let_def case_prod_beta)

lemma draw_edges_img_array [simp]: "img_array (draw_edges e l r st) = img_array st"
  by (simp add: draw_edges_def Let_def)

lemma sector_step_img_array [simp]:
  "img_array (fst (sector_step e f bounds n (st, cs) i)) = img_array st"
  by (simp add: sector_step_def Let_def)

lemma sector_step_colors:
  "snd (sector_step e f bounds n (st, cs) i)
     = (if i < n then cs @ [avg_color (nan_cast e) (img_channels (img_array st))
                              (sector (img_array st) (bounds ! i) (bounds ! (i + 1)))]
        else cs)"
  by (simp add: sector_step_def Let_def)

lemma sector_loop:
  "img_array (fst (foldl (sector_step e f bounds n) (st, cs) ixs)) = img_array st
   \<and> snd (foldl (sector_step e f bounds n) (st, cs) ixs)
       = cs @ map (\<lambda>i. avg_color (nan_cast e) (img_channels (img_array st))
                            (sector (img_array st) (bounds ! i) (bounds ! (i + 1))))
                (filter (\<lambda>i. i < n) ixs)"
proof (induction ixs arbitrary: st cs)
  case Nil
  then show ?case by simp
next
  case (Cons i ixs)
  obtain st' cs' where step: "sector_step e f bounds n (st, cs) i = (st', cs')"
    by (cases "sector_step e f bounds n (st, cs) i")
  have a: "img_array st' = img_array st"
    using sector_step_img_array[of e f bounds n st cs i] by (simp add: step)
  have c: "cs' = (if i < n then cs @ [avg_color (nan_cast e) (img_channels (img_array st))
                              (sector (img_array st) (bounds ! i) (bounds ! (i + 1)))]
        else cs)"
    using sector_step_colors[of e f bounds n st cs i] by (simp add: step)
  from Cons.IH[of st' cs'] show ?case by (simp add: step a c)
qed

lemma sector_loop_colors:
  "snd (foldl (sector_step e f bounds n) (st, []) [0..<n + 1])
     = sector_colors_of (nan_cast e) (img_array st) bounds n"
proof -
  have "filter (\<lambda>i. i < n) [0..<n + 1] = [0..<n]" by simp
  with sector_loop[of e f bounds n st "[]" "[0..<n + 1]"] show ?thesis
    by (simp add: sector_colors_of_def del: upt_Suc)
qed

lemma process_spectrum_try_result:
  assumes "image_open e input_path = Some decoded"
  shows "map_sum id snd (process_spectrum_try e input_path output_path title num_sectors)
       = (case analyse (nan_cast e) decoded num_sectors of
            Inl err \<Rightarrow> Inl err
          | Inr res \<Rightarrow> if image_save e output_path then Inr res else Inl OSError)"
proof (cases "edge_strength decoded")
  case (Inl err)
  then show ?thesis by (simp add: process_spectrum_try_def analyse_def assms Let_def)
next
  case (Inr gm)
  obtain l r where lr: "detect_edges gm = (l, r)" by (cases "detect_edges gm")
  show ?thesis
  proof (cases "num_sectors = 0")
    case True
    then show ?thesis by (simp add: process_spectrum_try_def analyse_def assms Let_def Inr lr)
  next
    case False
    let ?st = "draw_edges e l r (draw_title e title \<lparr>img = decoded, img_array = decoded\<rparr>)"
    let ?f = "load_font e ''arial.ttf'' 12"
    let ?b = "sector_boundaries l r num_sectors"
    obtain st2 cs where fo: "foldl (sector_step e ?f ?b num_sectors) (?st, []) [0..<num_sectors + 1] = (st2, cs)"
      by (cases "foldl (sector_step e ?f ?b num_sectors) (?st, []) [0..<num_sectors + 1]")
    have cs: "cs = sector_colors_of (nan_cast e) decoded ?b num_sectors"
      using sector_loop_colors[of e ?f ?b num_sectors ?st] unfolding fo by simp
    have fo': "foldl (sector_step e ?f ?b num_sectors) (?st, []) [0..<Suc num_sectors] = (st2, cs)"
      using fo by (simp del: upt_Suc)
    show ?thesis using False
      by (simp add: process_spectrum_try_def analyse_def assms Let_def Inr lr fo' cs del: upt_Suc)
  qed
qed

lemma sector_flat:
  "a \<le> b \<Longrightarrow> b \<le> w \<Longrightarrow>
   sector (flat_image h w px) (int a) (int b) = replicate (h * (b - a)) px"
proof -
  assume ab: "a \<le> b" and bw: "b \<le> w"
  have "take (b - a) (drop a (replicate w px)) = replicate (b - a) px"
    using ab bw by (simp add: min_def)
  then have "sector (flat_image h w px) (int a) (int b) = concat (replicate h (replicate (b - a) px))"
    by (simp add: sector_def flat_image_def map_replicate)
  also have "\<dots> = replicate (h * (b - a)) px"
    by (induction h) (simp_all add: replicate_add)
  finally show ?thesis .
qed

lemma channel_mean_replicate:
  "0 < n \<Longrightarrow> channel_mean (replicate n px) k = of_nat (px ! k)"
  by (simp add: channel_mean_def map_replicate mean_replicate)

lemma avg_color_flat:
  assumes "0 < h" "a < b" "b \<le> w"
  shows "avg_color nan (length px) (sector (flat_image h w px) (int a) (int b)) = map int px"
proof -
  have n: "0 < h * (b - a)" using assms by simp
  have s: "sector (flat_image h w px) (int a) (int b) = replicate (h * (b - a)) px"
    using assms by (intro sector_flat) simp_all
  have "avg_color nan (length px) (replicate (h * (b - a)) px)
      = map (\<lambda>k. int (px ! k)) [0..<length px]"
    using n by (simp add: avg_color_def channel_mean_replicate)
  also have "\<dots> = map int px" by (rule nth_equalityI) simp_all
  finally show ?thesis unfolding s .
qed

lemma avg_color_empty:
  "avg_color nan c (sector arr a a) = replicate c nan"
  by (simp add: avg_color_def sector_def)

lemma analyse_flat:
  assumes "0 < h" "2 \<le> w" "0 < n"
  shows "analyse nan (flat_image h w px) n
       = Inr \<lparr>edges = (w div 4, min (3 * w div 4) (ignore_right w)),
              boundaries = sector_boundaries (w div 4) (min (3 * w div 4) (ignore_right w)) n,
              sector_colors = sector_colors_of nan (flat_image h w px)
                 (sector_boundaries (w div 4) (min (3 * w div 4) (ignore_right w)) n) n,
              spectrum_width = int (min (3 * w div 4) (ignore_right w)) - int (w div 4)\<rparr>"
  using assms
  by (simp add: analyse_def edge_strength_flat detect_edges_zeros Let_def)

lemma boundaries_25_75_32:
  assumes "i \<le> 32"
  shows "sector_boundaries 25 75 32 ! i = int ((800 + i * 50) div 32)"
proof -
  have "boundary 25 (sector_width 25 75 (2 ^ 5)) i = int ((25 * 2 ^ 5 + i * (75 - 25)) div 2 ^ 5)"
    using assms by (intro boundary_power_of_two) simp_all
  then show ?thesis using assms by (simp add: sector_boundaries_nth)
qed

lemma boundaries_10_30_32:
  assumes "i \<le> 32"
  shows "sector_boundaries 10 30 32 ! i = int ((320 + i * 20) div 32)"
proof -
  have "boundary 10 (sector_width 10 30 (2 ^ 5)) i = int ((10 * 2 ^ 5 + i * (30 - 10)) div 2 ^ 5)"
    using assms by (intro boundary_power_of_two) simp_all
  then show ?thesis using assms by (simp add: sector_boundaries_nth)
qed

lemma sector_colors_flat_100:
  assumes "0 < h"
  shows "sector_colors_of nan (flat_image h 100 px) (sector_boundaries 25 75 32) 32
       = replicate 32 (map int px)"
proof -
  have "avg_color nan (img_channels (flat_image h 100 px))
          (sector (flat_image h 100 px) (sector_boundaries 25 75 32 ! i)
             (sector_boundaries 25 75 32 ! (i + 1))) = map int px" if "i < 32" for i
  proof -
    have "(800 + i * 50 + 32) div 32 \<le> (800 + (i + 1) * 50) div 32"
      by (rule div_le_mono) simp
    then have lt: "(800 + i * 50) div 32 < (800 + (i + 1) * 50) div 32" by simp
    have "(800 + (i + 1) * 50) div 32 \<le> (800 + 32 * 50) div 32"
      using that by (intro div_le_mono) simp
    then have le: "(800 + (i + 1) * 50) div 32 \<le> 100" by simp
    show ?thesis using that assms avg_color_flat[OF assms lt le, of nan px]
      by (simp add: boundaries_25_75_32)
  qed
  then show ?thesis
    unfolding sector_colors_of_def by (intro nth_equalityI) simp_all
qed

section \<open>process\_folder\<close>

text \<open>\<^verbatim>\<open>str.lower\<close>, \<^verbatim>\<open>str.endswith\<close>, \<^verbatim>\<open>os.path.join\<close> and \<^verbatim>\<open>os.path.splitext\<close> (POSIX) on ASCII names.\<close>

definition lower_char :: "char \<Rightarrow> char" where
  "lower_char c = (let n = (of_char c :: nat) in if 65 \<le> n \<and> n \<le> 90 then char_of (n + 32) else c)"

definition lower :: "string \<Rightarrow> string" where
  "lower s = map lower_char s"

definition endswith :: "string \<Rightarrow> string \<Rightarrow> bool" where
  "endswith s suffix \<longleftrightarrow> length suffix \<le> length s \<and> drop (length s - length suffix) s = suffix"

definition is_image_file :: "string \<Rightarrow> bool" where
  "is_image_file f \<longleftrightarrow>
     list_ex (endswith (lower f)) [''.png'', ''.jpg'', ''.jpeg'', ''.bmp'', ''.gif'']"

definition path_join :: "string \<Rightarrow> string \<Rightarrow> string" where
  "path_join a b =
     (if b \<noteq> [] \<and> hd b = CHR ''/'' then b
      else if a = [] \<or> last a = CHR ''/'' then a @ b
      else a @ ''/'' @ b)"

definition rfind :: "char \<Rightarrow> string \<Rightarrow> int" where
  "rfind c s = (case filter (\<lambda>i. s ! i = c) (rev [0..<length s]) of [] \<Rightarrow> - 1 | i # _ \<Rightarrow> int i)"

definition splitext :: "string \<Rightarrow> string \<times> string" where
  "splitext p =
     (let sepIndex = rfind CHR ''/'' p; dotIndex = rfind CHR ''.'' p
      in if dotIndex > sepIndex
            \<and> list_ex (\<lambda>i. p ! i \<noteq> CHR ''.'') [nat (sepIndex + 1)..<nat dotIndex]
         then (take (nat dotIndex) p, drop (nat dotIndex) p)
         else (p, []))"

text \<open>
  One round of \<^verbatim>\<open>for image_file in image_files\<close>. The result enters \<^verbatim>\<open>all_results\<close>
  (line 153) before the report file is opened (line 157); an exception of the report part
  is caught by the \<^verbatim>\<open>except\<close> of line 169 and printed.
\<close>

definition process_file ::
  "env \<Rightarrow> string \<Rightarrow> string \<Rightarrow> nat \<Rightarrow> (string \<rightharpoonup> result) \<times> world \<Rightarrow> string
     \<Rightarrow> (string \<rightharpoonup> result) \<times> world" where
  "process_file e input_folder output_folder num_sectors acc image_file =
     (let (all_results, w) = acc;
          input_path = path_join input_folder image_file;
          output_path = path_join output_folder image_file;
          title = fst (splitext image_file);
          w1 = w\<lparr>stdout := stdout w @ [Processing image_file]\<rparr>;
          (res, w2) = process_spectrum e input_path output_path title num_sectors w1
      in case res of
           None \<Rightarrow> (all_results, w2)
         | Some r \<Rightarrow>
             (let all_results1 = all_results(image_file \<mapsto> r);
                  color_file = path_join output_folder (fst (splitext image_file) @ ''_processed.csv'')
              in if \<not> file_open e color_file
                 then (all_results1, w2\<lparr>stdout := stdout w2 @ [ErrorFile image_file OSError]\<rparr>)
                 else (let (content, err) = write_report (nan_cast e) (sector_colors r);
                           w3 = w2\<lparr>reports := (reports w2)(color_file \<mapsto> content)\<rparr>
                       in case err of
                            None \<Rightarrow> (all_results1, w3)
                          | Some x \<Rightarrow>
                              (all_results1, w3\<lparr>stdout := stdout w3 @ [ErrorFile image_file x]\<rparr>))))"

text \<open>
  The driver. \<^verbatim>\<open>os.makedirs\<close> and \<^verbatim>\<open>os.listdir\<close> run before the loop and outside any
  \<^verbatim>\<open>try\<close>; the directory listing is an answer of the environment.
\<close>

definition process_folder ::
  "env \<Rightarrow> string \<Rightarrow> string \<Rightarrow> nat \<Rightarrow> world \<Rightarrow> (string \<rightharpoonup> result) \<times> world" where
  "process_folder e input_folder output_folder num_sectors w =
     (let image_files = filter is_image_file (listdir e input_folder)
      in foldl (process_file e input_folder output_folder num_sectors) (Map.empty, w) image_files)"

section \<open>Claim C8: the solid-gray scenario\<close>

lemma write_report_closed_form:
  "\<forall>color\<in>set colors. color \<noteq> [] \<Longrightarrow>
   write_report nan colors
     = (''Sector #, Opinion\<newline>''
          @ concat (map (\<lambda>k. report_line nan k (colors ! k)) [0..<length colors]), None)"
  using write_lines_closed_form[of colors nan 0 None] by (simp add: write_report_def)

lemma process_spectrum_try_success:
  assumes "image_open e input_path = Some decoded"
    and "analyse (nan_cast e) decoded num_sectors = Inr res"
    and "image_save e output_path"
  shows "\<exists>out. process_spectrum_try e input_path output_path title num_sectors = Inr (out, res)"
proof -
  from process_spectrum_try_result[OF assms(1), of output_path title num_sectors] assms(2,3)
  have m: "map_sum id snd (process_spectrum_try e input_path output_path title num_sectors) = Inr res"
    by simp
  show ?thesis
  proof (cases "process_spectrum_try e input_path output_path title num_sectors")
    case (Inl err)
    with m show ?thesis by simp
  next
    case (Inr p)
    obtain out r where p: "p = (out, r)" by (cases p)
    with m Inr have "r = res" by simp
    with Inr p have "process_spectrum_try e input_path output_path title num_sectors = Inr (out, res)"
      by simp
    then show ?thesis by (rule exI)
  qed
qed

lemma peaks_of_zeros: "peaks_of (replicate w 0) = []"
  by (simp add: peaks_of_def modified_gradient_zeros find_peaks_const)

text \<open>An environment for the examples: one colour image, default font, a rasteriser that
  blackens the whole canvas at every drawing command, the x86-64 cast of NaN.\<close>

definition test_env :: "image \<Rightarrow> env" where
  "test_env decoded =
     \<lparr>truetype = (\<lambda>name pt. False),
      image_open = (\<lambda>path. if path = ''in/a.png'' then Some decoded else None),
      textbbox = (\<lambda>title font. (0, 0, 8 * int (length title), 11)),
      draw = (\<lambda>op canvas. map (map (\<lambda>px. [0, 0, 0])) canvas),
      image_save = (\<lambda>path. True),
      file_open = (\<lambda>path. True),
      nan_cast = - (2 ^ 63),
      listdir = (\<lambda>folder. [''a.png'', ''notes.txt''])\<rparr>"

lemma analyse_flat_100:
  assumes "0 < h"
  shows "analyse nan (flat_image h 100 px) 32
       = Inr \<lparr>edges = (25, 75), boundaries = sector_boundaries 25 75 32,
              sector_colors = replicate 32 (map int px), spectrum_width = 50\<rparr>"
  using analyse_flat[of h 100 32 nan px] assms
  by (simp add: ignore_right_def sector_colors_flat_100)

lemma report_all_sell:
  assumes "hue_value nan c < 125"
  shows "write_report nan (replicate 32 [c, c, c])
       = (''Sector #, Opinion\<newline>''
            @ concat (map (\<lambda>i. ''Sector '' @ str (i + 1) @ '', Sell\<newline>'') [0..<32]), None)"
proof -
  have "map (\<lambda>k. report_line nan k (replicate 32 [c, c, c] ! k)) [0..<32]
      = map (\<lambda>i. ''Sector '' @ str (i + 1) @ '', Sell\<newline>'') [0..<32]"
    using assms by (intro map_cong) (simp_all add: report_line_def spec_label_def)
  with write_report_closed_form[of "replicate 32 [c, c, c]" nan] show ?thesis by simp
qed


text \<open>
  Claim C8. For a 100 by 50 image (width 100, height 50) whose pixels all have the gray
  value \<open>g\<close>, no peak is detected and the fallback gives \<open>left_edge = 25\<close>,
  \<open>right_edge = 75\<close>; with 32 sectors there are 33 boundaries and 32 sector colours, each
  equal to \<open>(g, g, g)\<close>, and every one of the 32 report lines reads ``Sell'' whenever
  \<^verbatim>\<open>round(g / 255 * 360)\<close> is below 125.
\<close>

theorem C8_solid_gray_scenario:
  assumes "image_open e input_path = Some (flat_image 50 100 [g, g, g])"
    and "image_save e output_path"
  shows "(\<exists>gm. edge_strength (flat_image 50 100 [g, g, g]) = Inr gm \<and> peaks_of gm = [])
       \<and> (\<exists>out res. process_spectrum_try e input_path output_path title 32 = Inr (out, res)
             \<and> edges res = (25, 75)
             \<and> length (boundaries res) = 33
             \<and> length (sector_colors res) = 32
             \<and> (\<forall>c\<in>set (sector_colors res). c = [int g, int g, int g])
             \<and> (hue_value (nan_cast e) (int g) < 125 \<longrightarrow>
                   write_report (nan_cast e) (sector_colors res)
                     = (''Sector #, Opinion\<newline>''
                          @ concat (map (\<lambda>i. ''Sector '' @ str (i + 1) @ '', Sell\<newline>'') [0..<32]),
                        None)))"
proof -
  let ?res = "\<lparr>edges = (25, 75), boundaries = sector_boundaries 25 75 32,
               sector_colors = replicate 32 (map int [g, g, g]), spectrum_width = 50\<rparr>"
  have a: "analyse (nan_cast e) (flat_image 50 100 [g, g, g]) 32 = Inr ?res"
    by (rule analyse_flat_100) simp
  from process_spectrum_try_success[OF assms(1) a assms(2), of title]
  obtain out where t: "process_spectrum_try e input_path output_path title 32 = Inr (out, ?res)"
    by blast
  have 1: "\<exists>gm. edge_strength (flat_image 50 100 [g, g, g]) = Inr gm \<and> peaks_of gm = []"
    by (simp add: edge_strength_flat peaks_of_zeros)
  have 2: "edges ?res = (25, 75) \<and> length (boundaries ?res) = 33 \<and> length (sector_colors ?res) = 32
      \<and> (\<forall>c\<in>set (sector_colors ?res). c = [int g, int g, int g])"
    by simp
  have 3: "hue_value (nan_cast e) (int g) < 125 \<longrightarrow>
      write_report (nan_cast e) (sector_colors ?res)
        = (''Sector #, Opinion\<newline>''
             @ concat (map (\<lambda>i. ''Sector '' @ str (i + 1) @ '', Sell\<newline>'') [0..<32]), None)"
    using report_all_sell[of "nan_cast e" "int g"] by simp
  from t 2 3 have "\<exists>out res. process_spectrum_try e input_path output_path title 32 = Inr (out, res)
             \<and> edges res = (25, 75)
             \<and> length (boundaries res) = 33
             \<and> length (sector_colors res) = 32
             \<and> (\<forall>c\<in>set (sector_colors res). c = [int g, int g, int g])
             \<and> (hue_value (nan_cast e) (int g) < 125 \<longrightarrow>
                   write_report (nan_cast e) (sector_colors res)
                     = (''Sector #, Opinion\<newline>''
                          @ concat (map (\<lambda>i. ''Sector '' @ str (i + 1) @ '', Sell\<newline>'') [0..<32]),
                        None))"
    by blast
  with 1 show ?thesis by (rule conjI)
qed

theorem C8_witness:
  "image_open (test_env (flat_image 50 100 [60, 60, 60])) ''in/a.png''
     = Some (flat_image 50 100 [60, 60, 60])
   \<and> image_save (test_env (flat_image 50 100 [60, 60, 60])) ''out/a.png''
   \<and> hue_value (nan_cast (test_env (flat_image 50 100 [60, 60, 60]))) (int 60) = 85
   \<and> (\<exists>out res. process_spectrum_try (test_env (flat_image 50 100 [60, 60, 60]))
                     ''in/a.png'' ''out/a.png'' ''a'' 32 = Inr (out, res)
         \<and> edges res = (25, 75) \<and> length (sector_colors res) = 32
         \<and> write_report (nan_cast (test_env (flat_image 50 100 [60, 60, 60]))) (sector_colors res)
             = (''Sector #, Opinion\<newline>''
                  @ concat (map (\<lambda>i. ''Sector '' @ str (i + 1) @ '', Sell\<newline>'') [0..<32]), None))"
proof -
  let ?e = "test_env (flat_image 50 100 [60, 60, 60])"
  have h1: "image_open ?e ''in/a.png'' = Some (flat_image 50 100 [60, 60, 60])"
    by (simp add: test_env_def)
  have h2: "image_save ?e ''out/a.png''" by (simp add: test_env_def)
  have hue: "hue_value (nan_cast ?e) (int 60) = 85"
    by (simp add: test_env_def hue_value_def astype_int_def fl_eval)
  then have lt: "hue_value (nan_cast ?e) (int 60) < 125" by simp
  from C8_solid_gray_scenario[OF h1 h2, of "''a''"] obtain out res where
    t: "process_spectrum_try ?e ''in/a.png'' ''out/a.png'' ''a'' 32 = Inr (out, res)"
    and ed: "edges res = (25, 75)" and len: "length (sector_colors res) = 32"
    and rep: "hue_value (nan_cast ?e) (int 60) < 125 \<longrightarrow>
                   write_report (nan_cast ?e) (sector_colors res)
                     = (''Sector #, Opinion\<newline>''
                          @ concat (map (\<lambda>i. ''Sector '' @ str (i + 1) @ '', Sell\<newline>'') [0..<32]),
                        None)"
    by blast
  from rep lt have r: "write_report (nan_cast ?e) (sector_colors res)
                     = (''Sector #, Opinion\<newline>''
                          @ concat (map (\<lambda>i. ''Sector '' @ str (i + 1) @ '', Sell\<newline>'') [0..<32]),
                        None)" by (rule mp)
  from t ed len r have "\<exists>out res. process_spectrum_try ?e ''in/a.png'' ''out/a.png'' ''a'' 32 = Inr (out, res)
         \<and> edges res = (25, 75) \<and> length (sector_colors res) = 32
         \<and> write_report (nan_cast ?e) (sector_colors res)
             = (''Sector #, Opinion\<newline>''
                  @ concat (map (\<lambda>i. ''Sector '' @ str (i + 1) @ '', Sell\<newline>'') [0..<32]), None)"
    by blast
  with h1 h2 hue show ?thesis by (intro conjI)
qed

section \<open>Claim C3: the range of the sector colours\<close>

text \<open>
  Claim C3 asks that every sector colour be an integer triple in \<open>[0, 255]\<close> and that no
  empty pixel block be averaged. On a uniform image 40 columns wide with the default 32
  sectors the code finds the edges (10, 30); the first two boundaries are both 10, the first
  sector is the empty block \<^verbatim>\<open>img_array[:, 10:10]\<close>, its mean is NaN and the stored colour
  is the integer cast of NaN in each channel (\<open>-2^63\<close> on x86-64).
\<close>

theorem C3_empty_sector_is_averaged:
  "\<exists>out res. process_spectrum_try (test_env (flat_image 1 40 [128, 128, 128]))
                 ''in/a.png'' ''out/a.png'' ''a'' 32 = Inr (out, res)
      \<and> edges res = (10, 30)
      \<and> boundaries res ! 0 = 10 \<and> boundaries res ! 1 = 10
      \<and> sector (flat_image 1 40 [128, 128, 128]) (boundaries res ! 0) (boundaries res ! 1) = []
      \<and> sector_colors res ! 0 = [- (2 ^ 63), - (2 ^ 63), - (2 ^ 63)]"
proof -
  let ?im = "flat_image 1 40 [128, 128, 128]"
  let ?e = "test_env ?im"
  let ?b = "sector_boundaries 10 30 32"
  let ?res = "\<lparr>edges = (10, 30), boundaries = ?b,
               sector_colors = sector_colors_of (nan_cast ?e) ?im ?b 32,
               spectrum_width = 20\<rparr>"
  have o: "image_open ?e ''in/a.png'' = Some ?im" by (simp add: test_env_def)
  have s: "image_save ?e ''out/a.png''" by (simp add: test_env_def)
  have a: "analyse (nan_cast ?e) ?im 32 = Inr ?res"
    using analyse_flat[of 1 40 32 "nan_cast ?e" "[128, 128, 128]"]
    by (simp add: ignore_right_def)
  from process_spectrum_try_success[OF o a s, of "''a''"]
  obtain out where t: "process_spectrum_try ?e ''in/a.png'' ''out/a.png'' ''a'' 32 = Inr (out, ?res)"
    by blast
  have b0: "?b ! 0 = 10" using boundaries_10_30_32[of 0] by simp
  have b1: "?b ! 1 = 10" using boundaries_10_30_32[of 1] by simp
  then have b1': "?b ! Suc 0 = 10" by simp
  have e: "sector ?im 10 10 = []" by (simp add: sector_def)
  have c: "sector_colors_of (nan_cast ?e) ?im ?b 32 ! 0 = [- (2 ^ 63), - (2 ^ 63), - (2 ^ 63)]"
    by (simp add: sector_colors_of_def nth_map_upt b0 b1 b1' avg_color_empty test_env_def
          numeral_3_eq_3 del: upt_Suc)
  have "process_spectrum_try ?e ''in/a.png'' ''out/a.png'' ''a'' 32 = Inr (out, ?res)
      \<and> edges ?res = (10, 30)
      \<and> boundaries ?res ! 0 = 10 \<and> boundaries ?res ! 1 = 10
      \<and> sector ?im (boundaries ?res ! 0) (boundaries ?res ! 1) = []
      \<and> sector_colors ?res ! 0 = [- (2 ^ 63), - (2 ^ 63), - (2 ^ 63)]"
    using t b0 b1 e c by simp
  then show ?thesis by blast
qed


section \<open>Claim C2: the last boundary and the right edge\<close>

lemma boundaries_77_232_19:
  "sector_boundaries 77 232 19
     = [77, 85, 93, 101, 109, 117, 125, 134, 142, 150, 158, 166, 174, 183, 191, 199, 207, 215,
        223, 231]"
  by (simp add: sector_boundaries_def fl_eval upt_rec)

lemma boundaries_1_62_7:
  "sector_boundaries 1 62 7 = [1, 9, 18, 27, 35, 44, 53, 61]"
  by (simp add: sector_boundaries_def fl_eval upt_rec)

lemma boundaries_77_232_32_last: "sector_boundaries 77 232 32 ! 32 = 232"
proof -
  have "boundary 77 (sector_width 77 232 (2 ^ 5)) 32 = int ((77 * 2 ^ 5 + 32 * (232 - 77)) div 2 ^ 5)"
    by (intro boundary_power_of_two) simp_all
  then show ?thesis by (simp add: sector_boundaries_nth)
qed

text \<open>
  Claim C2 asks that the \<open>N + 1\<close> boundaries be
  \<open>\<lfloor>left_edge + i * (right_edge - left_edge) / N\<rfloor>\<close>, non-decreasing, the first one
  \<open>left_edge\<close> and the last one \<open>right_edge\<close>. Lines 78--79 compute them in double precision
  as \<^verbatim>\<open>int(left_edge + i * ((right_edge - left_edge) / N))\<close>. On a uniform image 310 columns
  wide with 19 sectors the code finds the edges (77, 232); the quotient \<open>155 / 19\<close> is rounded
  down, 19 times it is \<^verbatim>\<open>154.99999999999997\<close>, the sum is \<^verbatim>\<open>231.99999999999997\<close> and the
  last boundary is 231, one column short of the right edge 232 and of the floor the claim
  gives. With 32 sectors the same edge pair ends at 232. The edge pair (1, 62) with 7
  sectors ends at 61 in the same way.
\<close>

theorem C2_last_boundary_misses_right_edge:
  "(\<exists>out res. process_spectrum_try (test_env (flat_image 1 310 [128, 128, 128]))
                  ''in/a.png'' ''out/a.png'' ''a'' 19 = Inr (out, res)
       \<and> edges res = (77, 232)
       \<and> boundaries res
           = [77, 85, 93, 101, 109, 117, 125, 134, 142, 150, 158, 166, 174, 183, 191, 199, 207,
              215, 223, 231]
       \<and> boundaries res ! 19 \<noteq> int (snd (edges res)))
   \<and> \<lfloor>of_nat 77 + of_nat 19 * (of_nat 232 - of_nat 77) / of_nat 19 :: rat\<rfloor> = 232
   \<and> sector_boundaries 77 232 32 ! 32 = 232
   \<and> sector_boundaries 1 62 7 = [1, 9, 18, 27, 35, 44, 53, 61]
   \<and> \<lfloor>of_nat 1 + of_nat 7 * (of_nat 62 - of_nat 1) / of_nat 7 :: rat\<rfloor> = 62"
proof -
  let ?im = "flat_image 1 310 [128, 128, 128]"
  let ?e = "test_env ?im"
  let ?b = "sector_boundaries 77 232 19"
  let ?res = "\<lparr>edges = (77, 232), boundaries = ?b,
               sector_colors = sector_colors_of (nan_cast ?e) ?im ?b 19,
               spectrum_width = 155\<rparr>"
  have o: "image_open ?e ''in/a.png'' = Some ?im" by (simp add: test_env_def)
  have s: "image_save ?e ''out/a.png''" by (simp add: test_env_def)
  have a: "analyse (nan_cast ?e) ?im 19 = Inr ?res"
    using analyse_flat[of 1 310 19 "nan_cast ?e" "[128, 128, 128]"]
    by (simp add: ignore_right_def)
  from process_spectrum_try_success[OF o a s, of "''a''"]
  obtain out where t: "process_spectrum_try ?e ''in/a.png'' ''out/a.png'' ''a'' 19 = Inr (out, ?res)"
    by blast
  have "process_spectrum_try ?e ''in/a.png'' ''out/a.png'' ''a'' 19 = Inr (out, ?res)
       \<and> edges ?res = (77, 232)
       \<and> boundaries ?res
           = [77, 85, 93, 101, 109, 117, 125, 134, 142, 150, 158, 166, 174, 183, 191, 199, 207,
              215, 223, 231]
       \<and> boundaries ?res ! 19 \<noteq> int (snd (edges ?res))"
    using t by (simp add: boundaries_77_232_19)
  then have 1: "\<exists>out res. process_spectrum_try ?e ''in/a.png'' ''out/a.png'' ''a'' 19 = Inr (out, res)
       \<and> edges res = (77, 232)
       \<and> boundaries res
           = [77, 85, 93, 101, 109, 117, 125, 134, 142, 150, 158, 166, 174, 183, 191, 199, 207,
              215, 223, 231]
       \<and> boundaries res ! 19 \<noteq> int (snd (edges res))"
    by blast
  have 2: "\<lfloor>of_nat 77 + of_nat 19 * (of_nat 232 - of_nat 77) / of_nat 19 :: rat\<rfloor> = 232" by simp
  have 3: "\<lfloor>of_nat 1 + of_nat 7 * (of_nat 62 - of_nat 1) / of_nat 7 :: rat\<rfloor> = 62" by simp
  from 1 2 boundaries_77_232_32_last boundaries_1_62_7 3 show ?thesis by (intro conjI)
qed

section \<open>Claim C9: the analysis reads the snapshot, the drawing writes the canvas\<close>

text \<open>
  Claim C9. Edge detection and the sector colours are computed from \<open>img_array\<close>, the copy
  of the pixel data made before anything is drawn. Whatever \<^verbatim>\<open>process_spectrum\<close> returns is
  the analysis of the decoded pixels alone, and replacing the rasteriser, the text metrics,
  the fonts and the title by any others leaves the returned edges, boundaries and colours
  (and the exception, if there is one) unchanged.
\<close>

theorem C9_snapshot_frame:
  assumes "image_open e input_path = Some decoded"
  shows "map_sum id snd (process_spectrum_try e input_path output_path title num_sectors)
           = (case analyse (nan_cast e) decoded num_sectors of
                Inl err \<Rightarrow> Inl err
              | Inr res \<Rightarrow> if image_save e output_path then Inr res else Inl OSError)
       \<and> (\<forall>d t f title'.
             map_sum id snd (process_spectrum_try (e\<lparr>draw := d, textbbox := t, truetype := f\<rparr>)
                               input_path output_path title' num_sectors)
               = map_sum id snd (process_spectrum_try e input_path output_path title num_sectors))"
proof -
  have 1: "map_sum id snd (process_spectrum_try e input_path output_path title num_sectors)
           = (case analyse (nan_cast e) decoded num_sectors of
                Inl err \<Rightarrow> Inl err
              | Inr res \<Rightarrow> if image_save e output_path then Inr res else Inl OSError)"
    by (rule process_spectrum_try_result[OF assms])
  have 2: "map_sum id snd (process_spectrum_try (e\<lparr>draw := d, textbbox := t, truetype := f\<rparr>)
                               input_path output_path title' num_sectors)
               = map_sum id snd (process_spectrum_try e input_path output_path title num_sectors)"
    for d t f title'
  proof -
    have o: "image_open (e\<lparr>draw := d, textbbox := t, truetype := f\<rparr>) input_path = Some decoded"
      using assms by simp
    show ?thesis unfolding 1 process_spectrum_try_result[OF o] by (simp split: sum.splits)
  qed
  from 1 2 show ?thesis by blast
qed

theorem C9_witness:
  "image_open (test_env (flat_image 50 100 [60, 60, 60])) ''in/a.png''
      = Some (flat_image 50 100 [60, 60, 60])
   \<and> map_sum id snd (process_spectrum_try (test_env (flat_image 50 100 [60, 60, 60]))
                       ''in/a.png'' ''out/a.png'' ''a'' 32)
      = Inr \<lparr>edges = (25, 75), boundaries = sector_boundaries 25 75 32,
             sector_colors = replicate 32 [60, 60, 60], spectrum_width = 50\<rparr>
   \<and> map_sum id snd (process_spectrum_try
                       ((test_env (flat_image 50 100 [60, 60, 60]))
                          \<lparr>draw := (\<lambda>op canvas. canvas),
                           textbbox := (\<lambda>title font. (0, 0, 0, 0)),
                           truetype := (\<lambda>name pt. True)\<rparr>)
                       ''in/a.png'' ''out/a.png'' ''another title'' 32)
      = map_sum id snd (process_spectrum_try (test_env (flat_image 50 100 [60, 60, 60]))
                       ''in/a.png'' ''out/a.png'' ''a'' 32)"
proof -
  let ?im = "flat_image 50 100 [60, 60, 60]"
  let ?e = "test_env ?im"
  have h: "image_open ?e ''in/a.png'' = Some ?im" by (simp add: test_env_def)
  note c = C9_snapshot_frame[OF h, of "''out/a.png''" "''a''" 32]
  from c have 1: "map_sum id snd (process_spectrum_try ?e ''in/a.png'' ''out/a.png'' ''a'' 32)
           = (case analyse (nan_cast ?e) ?im 32 of
                Inl err \<Rightarrow> Inl err
              | Inr res \<Rightarrow> if image_save ?e ''out/a.png'' then Inr res else Inl OSError)"
    by (rule conjunct1)
  have a: "analyse (nan_cast ?e) ?im 32
       = Inr \<lparr>edges = (25, 75), boundaries = sector_boundaries 25 75 32,
              sector_colors = replicate 32 [60, 60, 60], spectrum_width = 50\<rparr>"
    using analyse_flat_100[of 50 "nan_cast ?e" "[60, 60, 60]"] by simp
  have s: "image_save ?e ''out/a.png''" by (simp add: test_env_def)
  from 1 a s have r: "map_sum id snd (process_spectrum_try ?e ''in/a.png'' ''out/a.png'' ''a'' 32)
      = Inr \<lparr>edges = (25, 75), boundaries = sector_boundaries 25 75 32,
             sector_colors = replicate 32 [60, 60, 60], spectrum_width = 50\<rparr>"
    by simp
  from c have "\<forall>d t f title'.
             map_sum id snd (process_spectrum_try (?e\<lparr>draw := d, textbbox := t, truetype := f\<rparr>)
                               ''in/a.png'' ''out/a.png'' title' 32)
               = map_sum id snd (process_spectrum_try ?e ''in/a.png'' ''out/a.png'' ''a'' 32)"
    by (rule conjunct2)
  then have 2: "map_sum id snd (process_spectrum_try
                       (?e\<lparr>draw := (\<lambda>op canvas. canvas),
                           textbbox := (\<lambda>title font. (0, 0, 0, 0)),
                           truetype := (\<lambda>name pt. True)\<rparr>)
                       ''in/a.png'' ''out/a.png'' ''another title'' 32)
      = map_sum id snd (process_spectrum_try ?e ''in/a.png'' ''out/a.png'' ''a'' 32)"
    by blast
  from h r 2 show ?thesis by (intro conjI)
qed

section \<open>The folder loop, file by file\<close>

text \<open>What \<^verbatim>\<open>process_spectrum\<close> returns for a file of the folder; it does not depend on the
  world the call starts in.\<close>

definition empty_world :: world where
  "empty_world = \<lparr>saved_images = Map.empty, reports = Map.empty, stdout = []\<rparr>"

definition file_outcome :: "env \<Rightarrow> string \<Rightarrow> string \<Rightarrow> nat \<Rightarrow> string \<Rightarrow> result option" where
  "file_outcome e input_folder output_folder num_sectors image_file =
     fst (process_spectrum e (path_join input_folder image_file)
            (path_join output_folder image_file) (fst (splitext image_file)) num_sectors
            empty_world)"

definition color_file_of :: "string \<Rightarrow> string \<Rightarrow> string" where
  "color_file_of output_folder image_file =
     path_join output_folder (fst (splitext image_file) @ ''_processed.csv'')"

lemma fst_process_spectrum:
  "fst (process_spectrum e ip op t n w)
     = (case process_spectrum_try e ip op t n of Inl err \<Rightarrow> None | Inr p \<Rightarrow> Some (snd p))"
  by (simp add: process_spectrum_def split: sum.splits prod.splits)

lemma fst_process_spectrum_world:
  "fst (process_spectrum e ip op t n w) = fst (process_spectrum e ip op t n w')"
  by (simp add: fst_process_spectrum)

lemma reports_process_spectrum [simp]:
  "reports (snd (process_spectrum e ip op t n w)) = reports w"
  by (simp add: process_spectrum_def split: sum.splits prod.splits)


lemma process_file_results:
  "fst (process_file e idir odir n (R, w) f)
     = (case file_outcome e idir odir n f of None \<Rightarrow> R | Some r \<Rightarrow> R(f \<mapsto> r))"
proof -
  let ?w1 = "w\<lparr>stdout := stdout w @ [Processing f]\<rparr>"
  obtain res w2 where ps: "process_spectrum e (path_join idir f) (path_join odir f)
      (fst (splitext f)) n ?w1 = (res, w2)"
    by (cases "process_spectrum e (path_join idir f) (path_join odir f) (fst (splitext f)) n ?w1")
  have "file_outcome e idir odir n f = res"
    unfolding file_outcome_def
    using fst_process_spectrum_world[of e "path_join idir f" "path_join odir f"
        "fst (splitext f)" n empty_world ?w1]
    by (simp add: ps)
  then show ?thesis
    by (simp add: process_file_def Let_def ps split: option.splits prod.splits)
qed

lemma process_file_reports:
  "reports (snd (process_file e idir odir n (R, w) f))
     = (case file_outcome e idir odir n f of
          None \<Rightarrow> reports w
        | Some r \<Rightarrow> if file_open e (color_file_of odir f)
                    then (reports w)(color_file_of odir f
                           \<mapsto> fst (write_report (nan_cast e) (sector_colors r)))
                    else reports w)"
proof -
  let ?w1 = "w\<lparr>stdout := stdout w @ [Processing f]\<rparr>"
  obtain res w2 where ps: "process_spectrum e (path_join idir f) (path_join odir f)
      (fst (splitext f)) n ?w1 = (res, w2)"
    by (cases "process_spectrum e (path_join idir f) (path_join odir f) (fst (splitext f)) n ?w1")
  have o: "file_outcome e idir odir n f = res"
    unfolding file_outcome_def
    using fst_process_spectrum_world[of e "path_join idir f" "path_join odir f"
        "fst (splitext f)" n empty_world ?w1]
    by (simp add: ps)
  have r: "reports w2 = reports w"
    using reports_process_spectrum[of e "path_join idir f" "path_join odir f"
        "fst (splitext f)" n ?w1] by (simp add: ps)
  show ?thesis
    by (simp add: process_file_def Let_def ps o r color_file_of_def
          split: option.splits prod.splits)
qed



lemma folder_loop_results:
  "fst (foldl (process_file e idir odir n) (R, w) fs) f
     = (if f \<in> set fs
        then (case file_outcome e idir odir n f of None \<Rightarrow> R f | Some r \<Rightarrow> Some r)
        else R f)"
proof (induction fs arbitrary: R w)
  case Nil
  then show ?case by simp
next
  case (Cons g fs)
  obtain R' w' where st: "process_file e idir odir n (R, w) g = (R', w')"
    by (cases "process_file e idir odir n (R, w) g")
  have R': "R' = (case file_outcome e idir odir n g of None \<Rightarrow> R | Some r \<Rightarrow> R(g \<mapsto> r))"
    using process_file_results[of e idir odir n R w g] by (simp add: st)
  show ?case using Cons.IH[where R = R' and w = w']
    by (auto simp: st R' split: option.splits)
qed



section \<open>Claim C5: per-file errors\<close>





text \<open>Examples: a folder with an undecodable image, a good image and a text file; the same
  folder when the report files cannot be opened for writing.\<close>

definition gray_60 :: image where
  "gray_60 = flat_image 50 100 [60, 60, 60]"

definition gray_60_result :: result where
  "gray_60_result = \<lparr>edges = (25, 75), boundaries = sector_boundaries 25 75 32,
                      sector_colors = replicate 32 [60, 60, 60], spectrum_width = 50\<rparr>"

definition folder_env :: env where
  "folder_env = (test_env gray_60)\<lparr>listdir := (\<lambda>folder. [''bad.png'', ''a.png'', ''notes.txt''])\<rparr>"

definition readonly_env :: env where
  "readonly_env = folder_env\<lparr>file_open := (\<lambda>path. False)\<rparr>"

lemma example_names:
  "is_image_file ''a.png''" "is_image_file ''bad.png''" "\<not> is_image_file ''notes.txt''"
  "path_join ''in'' ''a.png'' = ''in/a.png''" "path_join ''out'' ''a.png'' = ''out/a.png''"
  "path_join ''in'' ''bad.png'' = ''in/bad.png''"
  by (simp_all add: is_image_file_def lower_def lower_char_def endswith_def path_join_def)

lemma gray_60_outcome:
  assumes "image_open e ''in/a.png'' = Some gray_60" "image_save e ''out/a.png''"
  shows "fst (process_spectrum e (path_join ''in'' ''a.png'') (path_join ''out'' ''a.png'')
            title 32 w) = Some gray_60_result"
proof -
  have a: "analyse (nan_cast e) gray_60 32 = Inr gray_60_result"
    using analyse_flat_100[of 50 "nan_cast e" "[60, 60, 60]"]
    by (simp add: gray_60_def gray_60_result_def)
  from process_spectrum_try_success[OF assms(1) a assms(2), of title]
  obtain out where "process_spectrum_try e ''in/a.png'' ''out/a.png'' title 32
      = Inr (out, gray_60_result)" by blast
  then show ?thesis by (simp add: fst_process_spectrum example_names)
qed

lemma folder_env_outcomes:
  "file_outcome folder_env ''in'' ''out'' 32 ''a.png'' = Some gray_60_result"
  "file_outcome readonly_env ''in'' ''out'' 32 ''a.png'' = Some gray_60_result"
  "file_outcome folder_env ''in'' ''out'' 32 ''bad.png'' = None"
proof -
  show "file_outcome folder_env ''in'' ''out'' 32 ''a.png'' = Some gray_60_result"
    unfolding file_outcome_def
    by (rule gray_60_outcome) (simp_all add: folder_env_def test_env_def)
  show "file_outcome readonly_env ''in'' ''out'' 32 ''a.png'' = Some gray_60_result"
    unfolding file_outcome_def
    by (rule gray_60_outcome) (simp_all add: readonly_env_def folder_env_def test_env_def)
  have "image_open folder_env ''in/bad.png'' = None"
    by (simp add: folder_env_def test_env_def)
  then show "file_outcome folder_env ''in'' ''out'' 32 ''bad.png'' = None"
    by (simp add: file_outcome_def fst_process_spectrum example_names
          process_spectrum_try_def Let_def)
qed








section \<open>Claim C6: determinism\<close>

text \<open>
  What a run returns is decided by the decoded pixels, the sector count, the platform's cast
  of NaN and whether the image can be saved; the fonts, the text metrics, the rasteriser, the
  title drawn and the state of the output folder have no part in it.
\<close>

lemma fst_process_spectrum_analysis:
  "fst (process_spectrum e ip op t n w)
     = (case map_sum id snd (process_spectrum_try e ip op t n) of
          Inl err \<Rightarrow> None | Inr r \<Rightarrow> Some r)"
  by (simp add: fst_process_spectrum split: sum.splits)

lemma process_spectrum_try_no_image:
  "image_open e ip = None \<Longrightarrow> process_spectrum_try e ip op t n = Inl OSError"
  by (simp add: process_spectrum_try_def Let_def)

lemma process_spectrum_two_runs:
  assumes "image_open e1 ip = image_open e2 ip" and "nan_cast e1 = nan_cast e2"
    and "image_save e1 op = image_save e2 op"
  shows "fst (process_spectrum e1 ip op t1 n w1) = fst (process_spectrum e2 ip op t2 n w2)"
proof (cases "image_open e1 ip")
  case None
  with assms(1) have "image_open e2 ip = None" by simp
  with None show ?thesis
    by (simp add: fst_process_spectrum process_spectrum_try_no_image)
next
  case (Some decoded)
  with assms(1) have o2: "image_open e2 ip = Some decoded" by simp
  show ?thesis
    unfolding fst_process_spectrum_analysis
      process_spectrum_try_result[OF Some] process_spectrum_try_result[OF o2]
      assms(2) assms(3) ..
qed

lemma file_outcome_two_runs:
  assumes "image_open e1 = image_open e2" and "nan_cast e1 = nan_cast e2"
    and "image_save e1 = image_save e2"
  shows "file_outcome e1 idir odir n f = file_outcome e2 idir odir n f"
  unfolding file_outcome_def
  by (rule process_spectrum_two_runs) (simp_all add: assms)

text \<open>
  The report of a file after the whole loop, when no other listed file writes to the same
  report name (\<^verbatim>\<open>a.png\<close> and \<^verbatim>\<open>a.jpg\<close> both write \<^verbatim>\<open>a_processed.csv\<close>, and then the later
  one in the listing stays).
\<close>

lemma folder_loop_report_unique:
  assumes "\<forall>g\<in>set fs. color_file_of odir g = color_file_of odir f \<longrightarrow> g = f"
    and "file_outcome e idir odir n f = Some r"
    and "file_open e (color_file_of odir f)"
    and "f \<in> set fs \<or> reports w (color_file_of odir f)
           = Some (fst (write_report (nan_cast e) (sector_colors r)))"
  shows "reports (snd (foldl (process_file e idir odir n) (R, w) fs)) (color_file_of odir f)
       = Some (fst (write_report (nan_cast e) (sector_colors r)))"
  using assms(1,4)
proof (induction fs arbitrary: R w)
  case Nil
  then show ?case by simp
next
  case (Cons g fs)
  let ?X = "fst (write_report (nan_cast e) (sector_colors r))"
  obtain R' w' where st: "process_file e idir odir n (R, w) g = (R', w')"
    by (cases "process_file e idir odir n (R, w) g")
  have rep: "reports w'
     = (case file_outcome e idir odir n g of
          None \<Rightarrow> reports w
        | Some r \<Rightarrow> if file_open e (color_file_of odir g)
                    then (reports w)(color_file_of odir g
                           \<mapsto> fst (write_report (nan_cast e) (sector_colors r)))
                    else reports w)"
    using process_file_reports[of e idir odir n R w g] by (simp add: st)
  have uniq: "\<forall>g\<in>set fs. color_file_of odir g = color_file_of odir f \<longrightarrow> g = f"
    using Cons.prems(1) by simp
  have next_state: "f \<in> set fs \<or> reports w' (color_file_of odir f) = Some ?X"
  proof (cases "g = f")
    case True
    then have "reports w' (color_file_of odir f) = Some ?X"
      using rep assms(2,3) by simp
    then show ?thesis by simp
  next
    case False
    with Cons.prems(1) have ne: "color_file_of odir g \<noteq> color_file_of odir f" by auto
    then have same: "reports w' (color_file_of odir f) = reports w (color_file_of odir f)"
      unfolding rep by (simp split: option.splits)
    from Cons.prems(2) False have "f \<in> set fs \<or> reports w (color_file_of odir f) = Some ?X"
      by auto
    with same show ?thesis by simp
  qed
  from Cons.IH[OF uniq next_state, where R = R'] show ?case by (simp add: st)
qed

text \<open>
  The reports after the whole loop: what was there before, overwritten by the reports the
  loop writes, file by file in the order of the listing.
\<close>

definition report_step ::
  "env \<Rightarrow> string \<Rightarrow> string \<Rightarrow> nat \<Rightarrow> (string \<rightharpoonup> string) \<Rightarrow> string \<Rightarrow> (string \<rightharpoonup> string)" where
  "report_step e idir odir n M f =
     (case file_outcome e idir odir n f of
        None \<Rightarrow> M
      | Some r \<Rightarrow> if file_open e (color_file_of odir f)
                  then M(color_file_of odir f \<mapsto> fst (write_report (nan_cast e) (sector_colors r)))
                  else M)"

definition written_reports :: "env \<Rightarrow> string \<Rightarrow> string \<Rightarrow> nat \<Rightarrow> (string \<rightharpoonup> string)" where
  "written_reports e idir odir n =
     foldl (report_step e idir odir n) Map.empty (filter is_image_file (listdir e idir))"

lemma folder_loop_reports:
  "reports (snd (foldl (process_file e idir odir n) (R, w) fs))
     = foldl (report_step e idir odir n) (reports w) fs"
proof (induction fs arbitrary: R w)
  case Nil
  then show ?case by simp
next
  case (Cons g fs)
  obtain R' w' where st: "process_file e idir odir n (R, w) g = (R', w')"
    by (cases "process_file e idir odir n (R, w) g")
  have "reports w' = report_step e idir odir n (reports w) g"
    using process_file_reports[of e idir odir n R w g] by (simp add: st report_step_def)
  with Cons.IH[where R = R' and w = w'] show ?case by (simp add: st)
qed

lemma report_step_map_add:
  "report_step e idir odir n (A ++ M) f = A ++ report_step e idir odir n M f"
  by (simp add: report_step_def split: option.splits)

lemma report_loop_map_add:
  "foldl (report_step e idir odir n) (A ++ M) fs = A ++ foldl (report_step e idir odir n) M fs"
  by (induction fs arbitrary: M) (simp_all add: report_step_map_add)

lemma folder_loop_reports_written:
  "reports (snd (foldl (process_file e idir odir n) (R, w) fs))
     = reports w ++ foldl (report_step e idir odir n) Map.empty fs"
  using report_loop_map_add[of e idir odir n "reports w" Map.empty fs]
  by (simp add: folder_loop_reports)

lemma process_folder_reports:
  "reports (snd (process_folder e idir odir n w)) = reports w ++ written_reports e idir odir n"
  by (simp add: process_folder_def Let_def folder_loop_reports_written written_reports_def)

lemma report_step_two_runs:
  assumes "image_open e1 = image_open e2" and "nan_cast e1 = nan_cast e2"
    and "image_save e1 = image_save e2" and "file_open e1 = file_open e2"
  shows "report_step e1 idir odir n M f = report_step e2 idir odir n M f"
  using assms(2,4)
  by (simp add: report_step_def file_outcome_two_runs[OF assms(1,2,3), of idir odir n f]
        split: option.splits)

lemma report_loop_two_runs:
  assumes "image_open e1 = image_open e2" and "nan_cast e1 = nan_cast e2"
    and "image_save e1 = image_save e2" and "file_open e1 = file_open e2"
  shows "foldl (report_step e1 idir odir n) M fs = foldl (report_step e2 idir odir n) M fs"
  by (induction fs arbitrary: M) (simp_all add: report_step_two_runs[OF assms])

lemma written_reports_two_runs:
  assumes "image_open e1 = image_open e2" and "nan_cast e1 = nan_cast e2"
    and "image_save e1 = image_save e2" and "file_open e1 = file_open e2"
    and "listdir e1 idir = listdir e2 idir"
  shows "written_reports e1 idir odir n = written_reports e2 idir odir n"
  unfolding written_reports_def assms(5) by (rule report_loop_two_runs[OF assms(1-4)])

lemma map_add_same: "(M :: 'a \<rightharpoonup> 'b) ++ M = M"
  by (rule ext) (simp add: map_add_def split: option.splits)

text \<open>Examples: a second environment for the folder of \<open>folder_env\<close>, in which the TrueType
  font loads, the text metrics and the rasteriser are others and the directory is listed in
  another order; and a third one, like the second with the listing of the first.\<close>

definition second_env :: env where
  "second_env = folder_env
     \<lparr>truetype := (\<lambda>name pt. True),
      textbbox := (\<lambda>title font. (0, 0, 20 * int (length title), 40)),
      draw := (\<lambda>op canvas. canvas),
      listdir := (\<lambda>folder. [''notes.txt'', ''a.png'', ''bad.png''])\<rparr>"

definition third_env :: env where
  "third_env = second_env\<lparr>listdir := listdir folder_env\<rparr>"

lemma example_report_names:
  "color_file_of ''out'' ''a.png'' = ''out/a_processed.csv''"
  "color_file_of ''out'' ''bad.png'' = ''out/bad_processed.csv''"
  by (simp_all add: color_file_of_def splitext_def rfind_def path_join_def Let_def upt_rec)

text \<open>
  Claim C6. Take two runs on the same input with the same parameters: the files decode to
  the same pixels, the folder holds the same names, the same paths can be written and the
  platform is the same. Everything else may differ between the two runs: which fonts load,
  the text metrics, the rasteriser, the order in which the directory is listed, and the
  images, reports and messages already there when the run starts (the second run may start
  in what the first one left). Then \<^verbatim>\<open>process_spectrum\<close> returns the same in both runs (the
  same edge pair, boundaries and sector colours, or \<open>None\<close> in both), \<^verbatim>\<open>process_folder\<close>
  returns the same dictionary, and for every image file that was processed, whose report
  could be opened and whose report name no other listed image shares, both runs leave the
  same report text, character by character. When the directory is also listed in the same
  order, both runs write the same report files with the same text (\<open>written_reports\<close>) over
  whatever reports were there, also when two images share a report name.
\<close>

theorem C6_deterministic:
  assumes "image_open e1 = image_open e2" and "image_save e1 = image_save e2"
    and "file_open e1 = file_open e2" and "nan_cast e1 = nan_cast e2"
    and "set (listdir e1 idir) = set (listdir e2 idir)"
  shows "fst (process_spectrum e1 ip op t n w1) = fst (process_spectrum e2 ip op t n w2)
       \<and> fst (process_folder e1 idir odir n w1) = fst (process_folder e2 idir odir n w2)
       \<and> (\<forall>f r. f \<in> set (listdir e1 idir) \<and> is_image_file f
              \<and> fst (process_folder e1 idir odir n w1) f = Some r
              \<and> file_open e1 (color_file_of odir f)
              \<and> (\<forall>g\<in>set (listdir e1 idir).
                    is_image_file g \<and> color_file_of odir g = color_file_of odir f \<longrightarrow> g = f)
            \<longrightarrow> reports (snd (process_folder e1 idir odir n w1)) (color_file_of odir f)
                  = Some (fst (write_report (nan_cast e1) (sector_colors r)))
              \<and> reports (snd (process_folder e2 idir odir n w2)) (color_file_of odir f)
                  = reports (snd (process_folder e1 idir odir n w1)) (color_file_of odir f))
       \<and> (listdir e1 idir = listdir e2 idir
            \<longrightarrow> reports (snd (process_folder e1 idir odir n w1))
                  = reports w1 ++ written_reports e1 idir odir n
              \<and> reports (snd (process_folder e2 idir odir n w2))
                  = reports w2 ++ written_reports e1 idir odir n)"
proof -
  let ?fs1 = "filter is_image_file (listdir e1 idir)"
  let ?fs2 = "filter is_image_file (listdir e2 idir)"
  have pf1: "process_folder e1 idir odir n w1
      = foldl (process_file e1 idir odir n) (Map.empty, w1) ?fs1"
    by (simp add: process_folder_def Let_def)
  have pf2: "process_folder e2 idir odir n w2
      = foldl (process_file e2 idir odir n) (Map.empty, w2) ?fs2"
    by (simp add: process_folder_def Let_def)
  have sets: "set ?fs1 = set ?fs2" using assms(5) by simp
  have out: "file_outcome e1 idir odir n f = file_outcome e2 idir odir n f" for f
    by (rule file_outcome_two_runs[OF assms(1,4,2)])
  have 1: "fst (process_spectrum e1 ip op t n w1) = fst (process_spectrum e2 ip op t n w2)"
    by (rule process_spectrum_two_runs) (simp_all add: assms)
  have res1: "fst (process_folder e1 idir odir n w1) f
      = (if f \<in> set ?fs1 then file_outcome e1 idir odir n f else None)" for f
    unfolding pf1 folder_loop_results by (simp split: option.splits)
  have res2: "fst (process_folder e2 idir odir n w2) f
      = (if f \<in> set ?fs2 then file_outcome e2 idir odir n f else None)" for f
    unfolding pf2 folder_loop_results by (simp split: option.splits)
  have 2: "fst (process_folder e1 idir odir n w1) = fst (process_folder e2 idir odir n w2)"
  proof
    fix f
    show "fst (process_folder e1 idir odir n w1) f = fst (process_folder e2 idir odir n w2) f"
      unfolding res1 res2 sets out ..
  qed
  have 3: "reports (snd (process_folder e1 idir odir n w1)) (color_file_of odir f)
                  = Some (fst (write_report (nan_cast e1) (sector_colors r)))
              \<and> reports (snd (process_folder e2 idir odir n w2)) (color_file_of odir f)
                  = reports (snd (process_folder e1 idir odir n w1)) (color_file_of odir f)"
    if h: "f \<in> set (listdir e1 idir) \<and> is_image_file f
              \<and> fst (process_folder e1 idir odir n w1) f = Some r
              \<and> file_open e1 (color_file_of odir f)
              \<and> (\<forall>g\<in>set (listdir e1 idir).
                    is_image_file g \<and> color_file_of odir g = color_file_of odir f \<longrightarrow> g = f)"
    for f r
  proof -
    from h have m1: "f \<in> set ?fs1" by simp
    with sets have m2: "f \<in> set ?fs2" by simp
    from h have "fst (process_folder e1 idir odir n w1) f = Some r" by blast
    then have "(if f \<in> set ?fs1 then file_outcome e1 idir odir n f else None) = Some r"
      unfolding res1 .
    with m1 have o1: "file_outcome e1 idir odir n f = Some r" by (simp only: if_True)
    with out have o2: "file_outcome e2 idir odir n f = Some r" by simp
    from h have fo1: "file_open e1 (color_file_of odir f)" by simp
    with assms(3) have fo2: "file_open e2 (color_file_of odir f)" by simp
    from h have u1: "\<forall>g\<in>set ?fs1. color_file_of odir g = color_file_of odir f \<longrightarrow> g = f"
      by simp
    with sets have u2: "\<forall>g\<in>set ?fs2. color_file_of odir g = color_file_of odir f \<longrightarrow> g = f"
      by simp
    have a: "reports (snd (process_folder e1 idir odir n w1)) (color_file_of odir f)
        = Some (fst (write_report (nan_cast e1) (sector_colors r)))"
      unfolding pf1 using m1 by (intro folder_loop_report_unique[OF u1 o1 fo1]) simp
    have b: "reports (snd (process_folder e2 idir odir n w2)) (color_file_of odir f)
        = Some (fst (write_report (nan_cast e2) (sector_colors r)))"
      unfolding pf2 using m2 by (intro folder_loop_report_unique[OF u2 o2 fo2]) simp
    from a b assms(4) show ?thesis by simp
  qed
  have 4: "reports (snd (process_folder e1 idir odir n w1))
                  = reports w1 ++ written_reports e1 idir odir n
              \<and> reports (snd (process_folder e2 idir odir n w2))
                  = reports w2 ++ written_reports e1 idir odir n"
    if l: "listdir e1 idir = listdir e2 idir"
    unfolding process_folder_reports
      written_reports_two_runs[OF assms(1,4,2,3) l, of odir n] by simp
  from 1 2 3 4 show ?thesis by blast
qed

theorem C6_witness:
  "image_open folder_env = image_open second_env
   \<and> image_save folder_env = image_save second_env
   \<and> file_open folder_env = file_open second_env
   \<and> nan_cast folder_env = nan_cast second_env
   \<and> set (listdir folder_env ''in'') = set (listdir second_env ''in'')
   \<and> listdir folder_env ''in'' \<noteq> listdir second_env ''in''
   \<and> load_font folder_env ''arial.ttf'' 12 \<noteq> load_font second_env ''arial.ttf'' 12
   \<and> fst (process_folder folder_env ''in'' ''out'' 32 empty_world) ''a.png'' = Some gray_60_result
   \<and> fst (process_folder second_env ''in'' ''out'' 32
             (snd (process_folder folder_env ''in'' ''out'' 32 empty_world)))
       = fst (process_folder folder_env ''in'' ''out'' 32 empty_world)
   \<and> reports (snd (process_folder folder_env ''in'' ''out'' 32 empty_world))
        (color_file_of ''out'' ''a.png'')
       = Some (fst (write_report (nan_cast folder_env) (sector_colors gray_60_result)))
   \<and> reports (snd (process_folder second_env ''in'' ''out'' 32
                     (snd (process_folder folder_env ''in'' ''out'' 32 empty_world))))
        (color_file_of ''out'' ''a.png'')
       = reports (snd (process_folder folder_env ''in'' ''out'' 32 empty_world))
           (color_file_of ''out'' ''a.png'')
   \<and> listdir folder_env ''in'' = listdir third_env ''in''
   \<and> load_font folder_env ''arial.ttf'' 12 \<noteq> load_font third_env ''arial.ttf'' 12
   \<and> reports (snd (process_folder third_env ''in'' ''out'' 32
                     (snd (process_folder folder_env ''in'' ''out'' 32 empty_world))))
       = reports (snd (process_folder folder_env ''in'' ''out'' 32 empty_world))"
proof -
  let ?run1 = "process_folder folder_env ''in'' ''out'' 32 empty_world"
  let ?run2 = "process_folder second_env ''in'' ''out'' 32 (snd ?run1)"
  let ?run3 = "process_folder third_env ''in'' ''out'' 32 (snd ?run1)"
  let ?cf = "color_file_of ''out'' ''a.png''"
  have h1: "image_open folder_env = image_open second_env"
    and h2: "image_save folder_env = image_save second_env"
    and h3: "file_open folder_env = file_open second_env"
    and h4: "nan_cast folder_env = nan_cast second_env"
    by (simp_all add: second_env_def)
  have k1: "image_open folder_env = image_open third_env"
    and k2: "image_save folder_env = image_save third_env"
    and k3: "file_open folder_env = file_open third_env"
    and k4: "nan_cast folder_env = nan_cast third_env"
    and k6: "listdir folder_env ''in'' = listdir third_env ''in''"
    by (simp_all add: third_env_def second_env_def)
  from k6 have k5: "set (listdir folder_env ''in'') = set (listdir third_env ''in'')" by simp
  have l1: "listdir folder_env ''in'' = [''bad.png'', ''a.png'', ''notes.txt'']"
    by (simp add: folder_env_def)
  have l2: "listdir second_env ''in'' = [''notes.txt'', ''a.png'', ''bad.png'']"
    by (simp add: second_env_def)
  have h5: "set (listdir folder_env ''in'') = set (listdir second_env ''in'')"
    unfolding l1 l2 by auto
  have d1: "listdir folder_env ''in'' \<noteq> listdir second_env ''in''"
    unfolding l1 l2 by simp
  have d2: "load_font folder_env ''arial.ttf'' 12 \<noteq> load_font second_env ''arial.ttf'' 12"
    by (simp add: load_font_def second_env_def folder_env_def test_env_def)
  have d3: "load_font folder_env ''arial.ttf'' 12 \<noteq> load_font third_env ''arial.ttf'' 12"
    by (simp add: load_font_def third_env_def second_env_def folder_env_def test_env_def)
  have fs: "filter is_image_file (listdir folder_env ''in'') = [''bad.png'', ''a.png'']"
    unfolding l1 by (simp add: example_names)
  have r: "fst ?run1 ''a.png'' = Some gray_60_result"
    using folder_loop_results[of folder_env "''in''" "''out''" 32 Map.empty empty_world
        "filter is_image_file (listdir folder_env ''in'')" "''a.png''"]
      folder_env_outcomes(1)
    by (simp add: process_folder_def Let_def fs)
  have m: "''a.png'' \<in> set (listdir folder_env ''in'')" unfolding l1 by simp
  have fo: "file_open folder_env ?cf" by (simp add: folder_env_def test_env_def)
  have u: "\<forall>g\<in>set (listdir folder_env ''in'').
      is_image_file g \<and> color_file_of ''out'' g = ?cf \<longrightarrow> g = ''a.png''"
    unfolding l1 by (simp add: example_report_names example_names)
  note c = C6_deterministic[OF h1 h2 h3 h4 h5, of "''in/a.png''" "''out/a.png''" "''a''" 32
      empty_world "snd ?run1" "''out''"]
  from c have same: "fst ?run1 = fst ?run2" by simp
  from c m example_names(1) r fo u
  have rep: "reports (snd ?run1) ?cf
        = Some (fst (write_report (nan_cast folder_env) (sector_colors gray_60_result)))
      \<and> reports (snd ?run2) ?cf = reports (snd ?run1) ?cf"
    by blast
  note c3 = C6_deterministic[OF k1 k2 k3 k4 k5, of "''in/a.png''" "''out/a.png''" "''a''" 32
      empty_world "snd ?run1" "''out''"]
  from c3 k6 have w1: "reports (snd ?run1)
        = reports empty_world ++ written_reports folder_env ''in'' ''out'' 32"
    and w3: "reports (snd ?run3)
        = reports (snd ?run1) ++ written_reports folder_env ''in'' ''out'' 32"
    by blast+
  from w1 have w1': "reports (snd ?run1) = written_reports folder_env ''in'' ''out'' 32"
    by (simp add: empty_world_def)
  have again: "reports (snd ?run3) = reports (snd ?run1)"
    unfolding w3 unfolding w1' by (rule map_add_same)
  from rep have rep1: "reports (snd ?run1) ?cf
        = Some (fst (write_report (nan_cast folder_env) (sector_colors gray_60_result)))"
    and rep2: "reports (snd ?run2) ?cf = reports (snd ?run1) ?cf"
    by blast+
  from h1 h2 h3 h4 h5 d1 d2 r same[symmetric] rep1 rep2 k6 d3 again
  show ?thesis by (intro conjI)
qed

end
